theory Spec2Isabelle
  imports Main "HOL-Library.Word"
begin

unbundle bit_operations_syntax

section \<open>Job store and queue (src/lib/queue.ts)\<close>

text \<open>
  The job table of the Prisma client is an explicit list of rows, in insertion order,
  together with the counter the database draws fresh primary keys from. Row ids are
  natural numbers here (opaque generated strings in the source); dates are integers,
  in milliseconds. \<open>attempts\<close> only ever starts at zero and is incremented, so it is a
  natural number; \<open>maxAttempts\<close> is whatever integer the caller of \<open>enqueue\<close> passes.

  The \<open>switch\<close> of \<open>processNextJob\<close> has a \<open>default\<close> arm for a job type that is none
  of the five handled ones; \<open>OTHER_TYPE\<close> is such a value, carrying its name.
\<close>

datatype JobType =
    FETCH_POSTS | FETCH_COMMENTS | ANALYZE_SENTIMENT | REFRESH_TOKENS | CLEANUP_DATA
  | OTHER_TYPE string

datatype JobStatus = QUEUED | RUNNING | COMPLETED | FAILED

type_synonym JobData = "(string \<times> string) list"

record Job =
  job_id :: nat
  job_type :: JobType
  payload :: JobData
  status :: JobStatus
  attempts :: nat
  maxAttempts :: int
  scheduledAt :: int
  startedAt :: "int option"
  completedAt :: "int option"
  lastError :: "string option"

record Store =
  jobs :: "Job list"
  nextId :: nat

datatype db_error = RecordNotFound

definition empty_store :: Store where
  "empty_store = \<lparr>jobs = [], nextId = 0\<rparr>"

definition find_job :: "nat \<Rightarrow> Store \<Rightarrow> Job option" where
  "find_job i s = find (\<lambda>j. job_id j = i) (jobs s)"

text \<open>\<open>prisma.job.update({where: {id}, data})\<close> on a row that exists.\<close>

definition update_job :: "nat \<Rightarrow> (Job \<Rightarrow> Job) \<Rightarrow> Store \<Rightarrow> Store" where
  "update_job i f s = s\<lparr>jobs := map (\<lambda>j. if job_id j = i then f j else j) (jobs s)\<rparr>"

text \<open>
  Modelled from the spec: the column defaults of the Job table (the Prisma schema is not
  part of the sources): a new row has \<open>attempts = 0\<close> and no \<open>startedAt\<close>,
  \<open>completedAt\<close> or \<open>lastError\<close>.

  \<open>enqueue\<close>: \<open>scheduledAt || new Date()\<close> takes the given date when there is one
  (a Date object is always truthy).
\<close>

definition enqueue ::
  "JobType \<Rightarrow> JobData \<Rightarrow> int \<Rightarrow> int option \<Rightarrow> int \<Rightarrow> Store \<Rightarrow> nat \<times> Store" where
  "enqueue ty pl maxA sched now s =
     (let job = \<lparr>job_id = nextId s, job_type = ty, payload = pl, status = QUEUED,
                 attempts = 0, maxAttempts = maxA,
                 scheduledAt = (case sched of Some d \<Rightarrow> d | None \<Rightarrow> now),
                 startedAt = None, completedAt = None, lastError = None\<rparr>
      in (nextId s, \<lparr>jobs = jobs s @ [job], nextId = Suc (nextId s)\<rparr>))"

text \<open>
  The \<open>where\<close> clause of \<open>findFirst\<close> in \<open>getNextJob\<close>, and its
  \<open>orderBy: {scheduledAt: 'asc'}\<close>: the first row, in table order, among those with
  the least \<open>scheduledAt\<close>.
\<close>

definition eligible :: "int \<Rightarrow> Job \<Rightarrow> bool" where
  "eligible now j \<longleftrightarrow>
     status j = QUEUED \<and> scheduledAt j \<le> now \<and> int (attempts j) < maxAttempts j"

fun earliest :: "Job list \<Rightarrow> Job option" where
  "earliest [] = None"
| "earliest (j # js) =
     (case earliest js of
        None \<Rightarrow> Some j
      | Some k \<Rightarrow> if scheduledAt j \<le> scheduledAt k then Some j else Some k)"

definition findFirst :: "int \<Rightarrow> Store \<Rightarrow> Job option" where
  "findFirst now s = earliest (filter (eligible now) (jobs s))"

definition markRunning :: "int \<Rightarrow> Job \<Rightarrow> Job" where
  "markRunning started j =
     j\<lparr>status := RUNNING, startedAt := Some started, attempts := Suc (attempts j)\<rparr>"

text \<open>
  \<open>getNextJob\<close> run without interruption: the \<open>findFirst\<close> query (at time \<open>now\<close>), then
  the \<open>update\<close> (stamping \<open>started\<close>). The row returned is the one \<open>findFirst\<close> read,
  before the update.
\<close>

definition getNextJob :: "int \<Rightarrow> int \<Rightarrow> Store \<Rightarrow> Job option \<times> Store" where
  "getNextJob now started s =
     (case findFirst now s of
        None \<Rightarrow> (None, s)
      | Some job \<Rightarrow> (Some job, update_job (job_id job) (markRunning started) s))"

text \<open>\<open>completeJob\<close>: Prisma's \<open>update\<close> rejects when no row has the id.\<close>

definition completeJob :: "nat \<Rightarrow> int \<Rightarrow> Store \<Rightarrow> db_error + Store" where
  "completeJob jobId now s =
     (case find_job jobId s of
        None \<Rightarrow> Inl RecordNotFound
      | Some _ \<Rightarrow>
          Inr (update_job jobId (\<lambda>j. j\<lparr>status := COMPLETED, completedAt := Some now\<rparr>) s))"

definition calculateBackoffDelay :: "nat \<Rightarrow> int" where
  "calculateBackoffDelay n = min (1000 * 2 ^ n) 300000"

text \<open>
  \<open>failJob\<close>: returns silently when the row is missing. \<open>scheduledAt: undefined\<close>
  leaves the column as it is.
\<close>

definition failJob :: "nat \<Rightarrow> string \<Rightarrow> int \<Rightarrow> Store \<Rightarrow> Store" where
  "failJob jobId err now s =
     (case find_job jobId s of
        None \<Rightarrow> s
      | Some job \<Rightarrow>
          (let shouldRetry = int (attempts job) < maxAttempts job
           in update_job jobId
                (\<lambda>j. j\<lparr>status := (if shouldRetry then QUEUED else FAILED),
                       lastError := Some err,
                       scheduledAt :=
                         (if shouldRetry then now + calculateBackoffDelay (attempts job)
                          else scheduledAt j),
                       startedAt := None\<rparr>) s))"

text \<open>
  Two schedulers call \<open>getNextJob\<close> against one store. Each call suspends at its two
  \<open>await\<close>s, so it is a small process: \<open>Idle\<close> before the \<open>findFirst\<close> query,
  \<open>Found job\<close> between the query and the \<open>update\<close>, \<open>Done r\<close> once it has returned
  \<open>r\<close>. A schedule says which of the two callers takes the next step, and at what time
  (the time is the \<open>new Date()\<close> of the query or of the update).
\<close>

datatype claim_pc = Idle | Found Job | Done "Job option"

fun claim_step :: "int \<Rightarrow> claim_pc \<times> Store \<Rightarrow> claim_pc \<times> Store" where
  "claim_step t (Idle, s) =
     (case findFirst t s of None \<Rightarrow> (Done None, s) | Some job \<Rightarrow> (Found job, s))"
| "claim_step t (Found job, s) =
     (Done (Some job), update_job (job_id job) (markRunning t) s)"
| "claim_step t (Done r, s) = (Done r, s)"

datatype caller = SchedulerA | SchedulerB

fun run_two ::
  "(caller \<times> int) list \<Rightarrow> claim_pc \<times> claim_pc \<times> Store \<Rightarrow> claim_pc \<times> claim_pc \<times> Store" where
  "run_two [] st = st"
| "run_two ((SchedulerA, t) # sch) (a, b, s) =
     (case claim_step t (a, s) of (a', s') \<Rightarrow> run_two sch (a', b, s'))"
| "run_two ((SchedulerB, t) # sch) (a, b, s) =
     (case claim_step t (b, s) of (b', s') \<Rightarrow> run_two sch (a, b', s'))"

text \<open>
  Calls on the store by any number of callers, interleaved. Each call suspends at its
  \<open>await\<close>s, so it runs as the database steps it is made of: \<open>enqueue\<close> is one
  \<open>create\<close>, \<open>completeJob\<close> one \<open>update\<close>, \<open>getNextJob\<close> a \<open>findFirst\<close> and then an
  \<open>update\<close>, \<open>failJob\<close> a \<open>findUnique\<close> and then an \<open>update\<close>. Between its query and
  its update a call holds the row it has read in its variable \<open>job\<close>; \<open>locals c\<close> is that
  variable of the call that caller \<open>c\<close> has in flight. Any list of steps is a run: the
  steps of different callers may alternate in any order.
\<close>

datatype local = NoJob | Claiming Job | Failing Job

record Sys =
  store :: Store
  locals :: "nat \<Rightarrow> local"

datatype db_step =
    Create JobType JobData int "int option" int
  | ClaimQuery nat int
  | ClaimUpdate nat int
  | CompleteUpdate nat int
  | FailQuery nat nat
  | FailUpdate nat string int

definition init_sys :: Sys where
  "init_sys = \<lparr>store = empty_store, locals = (\<lambda>c. NoJob)\<rparr>"

text \<open>The \<open>update\<close> of \<open>failJob\<close>, computed from the row \<open>job\<close> that its \<open>findUnique\<close> read.\<close>

definition fail_update :: "Job \<Rightarrow> string \<Rightarrow> int \<Rightarrow> Store \<Rightarrow> Store" where
  "fail_update job err now s =
     (let shouldRetry = int (attempts job) < maxAttempts job
      in update_job (job_id job)
           (\<lambda>j. j\<lparr>status := (if shouldRetry then QUEUED else FAILED),
                  lastError := Some err,
                  scheduledAt :=
                    (if shouldRetry then now + calculateBackoffDelay (attempts job)
                     else scheduledAt j),
                  startedAt := None\<rparr>) s)"

fun exec :: "db_step \<Rightarrow> Sys \<Rightarrow> Sys" where
  "exec (Create ty pl maxA sched now) sys =
     sys\<lparr>store := snd (enqueue ty pl maxA sched now (store sys))\<rparr>"
| "exec (ClaimQuery c t) sys =
     sys\<lparr>locals := (locals sys)
            (c := (case findFirst t (store sys) of None \<Rightarrow> NoJob | Some job \<Rightarrow> Claiming job))\<rparr>"
| "exec (ClaimUpdate c t) sys =
     (case locals sys c of
        Claiming job \<Rightarrow>
          sys\<lparr>store := update_job (job_id job) (markRunning t) (store sys),
               locals := (locals sys)(c := NoJob)\<rparr>
      | _ \<Rightarrow> sys)"
| "exec (CompleteUpdate jobId now) sys =
     (case completeJob jobId now (store sys) of Inl _ \<Rightarrow> sys | Inr s' \<Rightarrow> sys\<lparr>store := s'\<rparr>)"
| "exec (FailQuery c jobId) sys =
     sys\<lparr>locals := (locals sys)
            (c := (case find_job jobId (store sys) of None \<Rightarrow> NoJob | Some job \<Rightarrow> Failing job))\<rparr>"
| "exec (FailUpdate c err now) sys =
     (case locals sys c of
        Failing job \<Rightarrow>
          sys\<lparr>store := fail_update job err now (store sys), locals := (locals sys)(c := NoJob)\<rparr>
      | _ \<Rightarrow> sys)"

definition run_steps :: "db_step list \<Rightarrow> Sys \<Rightarrow> Sys" where
  "run_steps steps sys = fold exec steps sys"

text \<open>
  Calls, and the steps a caller \<open>c\<close> runs for one; \<open>one_at_a_time\<close> is the run in which
  each call is finished before the next begins.
\<close>

datatype store_op =
    Enqueue JobType JobData int "int option" int
  | ClaimNext int int
  | Complete nat int
  | Fail nat string int

fun steps_of :: "nat \<Rightarrow> store_op \<Rightarrow> db_step list" where
  "steps_of c (Enqueue ty pl maxA sched now) = [Create ty pl maxA sched now]"
| "steps_of c (ClaimNext now started) = [ClaimQuery c now, ClaimUpdate c started]"
| "steps_of c (Complete jobId now) = [CompleteUpdate jobId now]"
| "steps_of c (Fail jobId err now) = [FailQuery c jobId, FailUpdate c err now]"

definition one_at_a_time :: "(nat \<times> store_op) list \<Rightarrow> db_step list" where
  "one_at_a_time cs = concat (map (\<lambda>(c, op). steps_of c op) cs)"

fun create_nonneg :: "db_step \<Rightarrow> bool" where
  "create_nonneg (Create ty pl maxA sched now) \<longleftrightarrow> 0 \<le> maxA"
| "create_nonneg _ \<longleftrightarrow> True"

text \<open>
  An update is fresh when the row it writes still has the \<open>attempts\<close> that the call read:
  no claim of that job has taken effect between the call's query and its update.
\<close>

definition unchanged_since_read :: "Job \<Rightarrow> Store \<Rightarrow> bool" where
  "unchanged_since_read job s =
     (case find_job (job_id job) s of None \<Rightarrow> False | Some row \<Rightarrow> attempts row = attempts job)"

fun fresh :: "db_step \<Rightarrow> Sys \<Rightarrow> bool" where
  "fresh (ClaimUpdate c t) sys =
     (case locals sys c of Claiming job \<Rightarrow> unchanged_since_read job (store sys) | _ \<Rightarrow> True)"
| "fresh (FailUpdate c err now) sys =
     (case locals sys c of Failing job \<Rightarrow> unchanged_since_read job (store sys) | _ \<Rightarrow> True)"
| "fresh _ sys = True"

fun fresh_run :: "db_step list \<Rightarrow> Sys \<Rightarrow> bool" where
  "fresh_run [] sys = True"
| "fresh_run (x # xs) sys = (fresh x sys \<and> fresh_run xs (exec x sys))"

subsection \<open>The scheduler tick\<close>

text \<open>
  The workers (\<open>fetchPostsForPage\<close>, \<open>fetchCommentsForPost\<close>, \<open>analyzeSentiment\<close>,
  \<open>refreshExpiredTokens\<close>, \<open>cleanupUserData\<close>) are a parameter: run on the claimed job
  they return, throw an \<open>Error\<close> with a message, or throw something that is not an
  \<open>Error\<close>, and they may have enqueued further jobs.

  Each \<open>process...Job\<close> method catches what its worker throws, prefixes the message,
  attaches \<open>jobId\<close> and rethrows. A thrown \<open>Error\<close> is \<open>JsError message jobId\<close>, with
  the \<open>jobId\<close> property when it has one; \<open>NotAnError\<close> is any thrown value for which
  \<open>error instanceof Error && 'jobId' in error\<close> is false because it is not an \<open>Error\<close>.
\<close>

datatype worker_result = WorkerReturns | WorkerThrowsError string | WorkerThrowsOther

datatype thrown = JsError string "nat option" | NotAnError

type_synonym worker = "Job \<Rightarrow> Store \<Rightarrow> worker_result \<times> Store"

definition wrap_worker :: "string \<Rightarrow> Job \<Rightarrow> worker_result \<times> Store \<Rightarrow> thrown option \<times> Store" where
  "wrap_worker prefix job r =
     (case r of
        (WorkerReturns, s) \<Rightarrow> (None, s)
      | (WorkerThrowsError msg, s) \<Rightarrow> (Some (JsError (prefix @ msg) (Some (job_id job))), s)
      | (WorkerThrowsOther, s) \<Rightarrow> (Some NotAnError, s))"

definition dispatch :: "worker \<Rightarrow> Job \<Rightarrow> Store \<Rightarrow> thrown option \<times> Store" where
  "dispatch w job s =
     (case job_type job of
        FETCH_POSTS \<Rightarrow> wrap_worker ''Failed to fetch posts: '' job (w job s)
      | FETCH_COMMENTS \<Rightarrow> wrap_worker ''Failed to fetch comments: '' job (w job s)
      | ANALYZE_SENTIMENT \<Rightarrow> wrap_worker ''Failed to analyze sentiment: '' job (w job s)
      | REFRESH_TOKENS \<Rightarrow> wrap_worker ''Failed to refresh tokens: '' job (w job s)
      | CLEANUP_DATA \<Rightarrow> wrap_worker ''Failed to cleanup data: '' job (w job s)
      | OTHER_TYPE name \<Rightarrow> (Some (JsError (''Unknown job type: '' @ name) None), s))"

text \<open>
  \<open>processNextJob\<close>: claim, dispatch, then \<open>completeJob\<close>; the \<open>catch\<close> calls
  \<open>failJob\<close> only for an \<open>Error\<close> that carries a \<open>jobId\<close>. A rejected \<open>completeJob\<close>
  lands in the same \<open>catch\<close> with an error that has no \<open>jobId\<close>.
\<close>

definition processNextJob :: "worker \<Rightarrow> int \<Rightarrow> int \<Rightarrow> int \<Rightarrow> Store \<Rightarrow> Store" where
  "processNextJob w now started fin s =
     (case getNextJob now started s of
        (None, s1) \<Rightarrow> s1
      | (Some job, s1) \<Rightarrow>
          (case dispatch w job s1 of
             (None, s2) \<Rightarrow>
               (case completeJob (job_id job) fin s2 of Inr s3 \<Rightarrow> s3 | Inl _ \<Rightarrow> s2)
           | (Some (JsError msg (Some jobId)), s2) \<Rightarrow> failJob jobId msg fin s2
           | (Some (JsError msg None), s2) \<Rightarrow> s2
           | (Some NotAnError, s2) \<Rightarrow> s2))"

text \<open>Example rows and stores, for evaluating the operations.\<close>

definition example_job :: "JobType \<Rightarrow> JobStatus \<Rightarrow> nat \<Rightarrow> int \<Rightarrow> Job" where
  "example_job ty st n m =
     \<lparr>job_id = 0, job_type = ty, payload = [], status = st, attempts = n, maxAttempts = m,
      scheduledAt = 10, startedAt = None, completedAt = None, lastError = None\<rparr>"

definition example_store :: "JobType \<Rightarrow> JobStatus \<Rightarrow> nat \<Rightarrow> int \<Rightarrow> Store" where
  "example_store ty st n m = \<lparr>jobs = [example_job ty st n m], nextId = 1\<rparr>"

text \<open>Invariants of the job table: primary keys, and the attempt counters.\<close>

definition wf_ids :: "Store \<Rightarrow> bool" where
  "wf_ids s \<longleftrightarrow>
     distinct (map job_id (jobs s)) \<and> list_all (\<lambda>j. job_id j < nextId s) (jobs s)"

definition bounded :: "Job \<Rightarrow> bool" where
  "bounded j \<longleftrightarrow> int (attempts j) \<le> maxAttempts j"

definition spent :: "Job \<Rightarrow> bool" where
  "spent j \<longleftrightarrow> status j \<noteq> QUEUED \<and> maxAttempts j \<le> int (attempts j)"

definition failed_spent :: "Job \<Rightarrow> bool" where
  "failed_spent j \<longleftrightarrow> (status j = FAILED \<longrightarrow> maxAttempts j \<le> int (attempts j))"

text \<open>The row a call holds is a row of the table, up to the fields that updates change.\<close>

definition known :: "Job \<Rightarrow> Store \<Rightarrow> bool" where
  "known job s =
     (case find_job (job_id job) s of
        None \<Rightarrow> False
      | Some row \<Rightarrow> maxAttempts row = maxAttempts job)"

definition local_ok :: "Store \<Rightarrow> local \<Rightarrow> bool" where
  "local_ok s l =
     (case l of
        NoJob \<Rightarrow> True
      | Claiming job \<Rightarrow> known job s \<and> int (attempts job) < maxAttempts job
      | Failing job \<Rightarrow> known job s)"

definition sys_ok :: "Sys \<Rightarrow> bool" where
  "sys_ok sys \<longleftrightarrow> wf_ids (store sys) \<and> (\<forall>c. local_ok (store sys) (locals sys c))"

text \<open>An update that leaves the id and the \<open>maxAttempts\<close> of a row alone.\<close>

definition keeps :: "(Job \<Rightarrow> Job) \<Rightarrow> bool" where
  "keeps f \<longleftrightarrow> (\<forall>j. job_id (f j) = job_id j \<and> maxAttempts (f j) = maxAttempts j)"

text \<open>
  Example runs: two claims that interleave on a job enqueued with \<open>maxAttempts = 1\<close>,
  followed by a \<open>fail\<close>; and calls by two callers, one at a time.
\<close>

definition interleaved_claims :: "db_step list" where
  "interleaved_claims =
     [Create FETCH_POSTS [] 1 None 0,
      ClaimQuery 0 5, ClaimQuery 1 5, ClaimUpdate 0 6, ClaimUpdate 1 6,
      FailQuery 0 0, FailUpdate 0 ''boom'' 7]"

definition example_calls :: "(nat \<times> store_op) list" where
  "example_calls =
     [(0, Enqueue FETCH_POSTS [] 1 None 0), (0, ClaimNext 5 5), (1, ClaimNext 5 6),
      (0, Fail 0 ''boom'' 6)]"

section \<open>Graph API client (src/lib/meta.ts)\<close>

text \<open>
  The network is a parameter: \<open>fetch url k\<close> is what the \<open>k\<close>-th call of \<open>fetch\<close> made
  by the client produces when it asks for \<open>url\<close>. A call either rejects (network
  failure) or resolves to a response with a status, a status text and a body;
  \<open>response.json()\<close> rejects on a body that is not JSON, and otherwise yields a value that
  is read as \<open>error.error?.message\<close> on the error path and as the typed result on the
  success path. \<open>Json em v\<close> is a body other than \<open>null\<close>: \<open>em\<close> is what
  \<open>error.error?.message\<close> evaluates to (as the template literal prints it, when there is
  one) and \<open>v\<close> the value as the typed caller reads it. \<open>JsonNull v\<close> is the body
  \<open>null\<close>, on which reading \<open>error.error\<close> throws a \<open>TypeError\<close>. The state of the
  client is the number of \<open>fetch\<close> calls made so far and the delays it has slept, in
  order. The rate limiter only delays a request and is left out.

  What \<open>makeRequest\<close> throws is an \<open>Error\<close> object with a message and nothing else:
  \<open>PlainError\<close> is one made by \<open>new Error(message)\<close>, the others are the
  \<open>TypeError\<close> of a rejected \<open>fetch\<close>, the \<open>SyntaxError\<close> of \<open>response.json()\<close> and
  the \<open>TypeError\<close> of reading a property of \<open>null\<close>.
\<close>

datatype pval = PStr string | PNum int | PBool bool

record Url =
  href :: string
  searchParams :: "(string \<times> pval) list"

datatype 'a json_body = Unparsable string | Json "string option" 'a | JsonNull 'a

datatype 'a fetch_result = NetworkFailure string | HttpResponse nat string "'a json_body"

datatype api_exn =
  PlainError string | FetchTypeError string | JsonSyntaxError string | NullTypeError

datatype 'a attempt = Throttled | Returned 'a | Threw api_exn

record World =
  calls :: nat
  sleeps :: "nat list"

record 'a PaginatedResponse =
  data :: "'a list"
  paging_next :: "string option"

definition BASE_URL :: string where
  "BASE_URL = ''https://graph.facebook.com/v18.0''"

definition build_url :: "string \<Rightarrow> string \<Rightarrow> (string \<times> pval) list \<Rightarrow> Url" where
  "build_url accessToken ep params =
     \<lparr>href = BASE_URL @ ep, searchParams = (''access_token'', PStr accessToken) # params\<rparr>"

text \<open>JavaScript truthiness of an optional string: present and not empty.\<close>

definition truthy :: "string option \<Rightarrow> bool" where
  "truthy x = (case x of None \<Rightarrow> False | Some s \<Rightarrow> s \<noteq> [])"

definition response_ok :: "nat \<Rightarrow> bool" where
  "response_ok st \<longleftrightarrow> 200 \<le> st \<and> st \<le> 299"

definition backoff_delay :: "nat \<Rightarrow> nat" where
  "backoff_delay attempt = min (1000 * 2 ^ attempt) 30000"

text \<open>\<open>error.error?.message || response.statusText\<close>\<close>

definition message_or :: "string option \<Rightarrow> string \<Rightarrow> string" where
  "message_or em txt = (case em of None \<Rightarrow> txt | Some m \<Rightarrow> if m \<noteq> [] then m else txt)"

text \<open>The body of the \<open>try\<close> block of \<open>makeRequest\<close>, on the result of one \<open>fetch\<close>.\<close>

definition attempt_once :: "'a fetch_result \<Rightarrow> 'a attempt" where
  "attempt_once r =
     (case r of
        NetworkFailure m \<Rightarrow> Threw (FetchTypeError m)
      | HttpResponse st txt body \<Rightarrow>
          if st = 429 then Throttled
          else if \<not> response_ok st then
            (case body of
               Unparsable m \<Rightarrow> Threw (JsonSyntaxError m)
             | Json em v \<Rightarrow>
                 Threw (PlainError (''Meta API Error: '' @ message_or em txt))
             | JsonNull v \<Rightarrow> Threw NullTypeError)
          else
            (case body of
               Unparsable m \<Rightarrow> Threw (JsonSyntaxError m)
             | Json em v \<Rightarrow> Returned v
             | JsonNull v \<Rightarrow> Returned v))"

text \<open>
  The \<open>for\<close> loop of \<open>makeRequest\<close>: a 429 sleeps and continues; anything thrown in the
  \<open>try\<close> block, the error built from a response that is not ok included, is caught,
  and rethrown only when \<open>attempt === maxRetries - 1\<close>.
\<close>

function makeRequest_loop ::
  "(nat \<Rightarrow> 'a fetch_result) \<Rightarrow> nat \<Rightarrow> nat \<Rightarrow> World \<Rightarrow> (api_exn + 'a) \<times> World" where
  "makeRequest_loop fetch_url maxRetries attempt w =
     (if attempt < maxRetries then
        (case attempt_once (fetch_url (calls w)) of
           Throttled \<Rightarrow>
             makeRequest_loop fetch_url maxRetries (Suc attempt)
               (w\<lparr>calls := Suc (calls w), sleeps := sleeps w @ [backoff_delay attempt]\<rparr>)
         | Returned v \<Rightarrow> (Inr v, w\<lparr>calls := Suc (calls w)\<rparr>)
         | Threw e \<Rightarrow>
             if attempt = maxRetries - 1 then (Inl e, w\<lparr>calls := Suc (calls w)\<rparr>)
             else makeRequest_loop fetch_url maxRetries (Suc attempt)
                    (w\<lparr>calls := Suc (calls w), sleeps := sleeps w @ [backoff_delay attempt]\<rparr>))
      else (Inl (PlainError ''Max retries exceeded''), w))"
  by pat_completeness auto
termination
  by (relation "measure (\<lambda>(f, m, a, w). m - a)") auto

declare makeRequest_loop.simps [simp del]

definition makeRequest ::
  "string \<Rightarrow> (Url \<Rightarrow> nat \<Rightarrow> 'a fetch_result) \<Rightarrow> string \<Rightarrow> (string \<times> pval) list \<Rightarrow> nat \<Rightarrow>
     World \<Rightarrow> (api_exn + 'a) \<times> World" where
  "makeRequest accessToken fetch ep params maxRetries w =
     makeRequest_loop (fetch (build_url accessToken ep params)) maxRetries 0 w"

text \<open>
  The \<open>do ... while (nextUrl && items.length < cap)\<close> loop of \<open>getPagePosts\<close> and
  \<open>getPostComments\<close>. The request of the loop body is the same in every round: its
  endpoint and parameters are built from the arguments of the function only. The loop
  need not terminate, so its result is optional.
\<close>

partial_function (option) fetch_pages ::
  "(World \<Rightarrow> (api_exn + 'a PaginatedResponse) \<times> World) \<Rightarrow> nat \<Rightarrow> 'a list \<Rightarrow> World \<Rightarrow>
     ((api_exn + 'a list) \<times> World) option" where
  "fetch_pages request cap items w =
     (case request w of
        (Inl e, w') \<Rightarrow> Some (Inl e, w')
      | (Inr response, w') \<Rightarrow>
          (let items' = items @ data response;
               nextUrl = paging_next response
           in if truthy nextUrl \<and> length items' < cap
              then fetch_pages request cap items' w'
              else Some (Inr items', w')))"

definition posts_params :: "string option \<Rightarrow> string option \<Rightarrow> int \<Rightarrow> (string \<times> pval) list" where
  "posts_params since until limit =
     [(''fields'',
       PStr ''id,message,created_time,permalink_url,likes.summary(true),comments.summary(true)''),
      (''limit'', PNum limit)]
     @ (case since of None \<Rightarrow> [] | Some d \<Rightarrow> if d \<noteq> [] then [(''since'', PStr d)] else [])
     @ (case until of None \<Rightarrow> [] | Some d \<Rightarrow> if d \<noteq> [] then [(''until'', PStr d)] else [])"

definition getPagePosts ::
  "(Url \<Rightarrow> nat \<Rightarrow> 'a PaginatedResponse fetch_result) \<Rightarrow> string \<Rightarrow> string \<Rightarrow>
     string option \<Rightarrow> string option \<Rightarrow> int \<Rightarrow> World \<Rightarrow> ((api_exn + 'a list) \<times> World) option" where
  "getPagePosts fetch pageId pageToken since until limit w =
     fetch_pages
       (makeRequest pageToken fetch (''/'' @ pageId @ ''/posts'') (posts_params since until limit) 3)
       1000 [] w"



text \<open>
  The items of the first \<open>n\<close> responses; and the round at which the loop stops on the
  responses \<open>pg 0, pg 1, ...\<close>: round \<open>n\<close> is the first whose response has no next cursor
  or brings the number of items to the cap.
\<close>

definition first_pages :: "(nat \<Rightarrow> 'a PaginatedResponse) \<Rightarrow> nat \<Rightarrow> 'a list" where
  "first_pages pg n = concat (map (\<lambda>k. data (pg k)) [0..<n])"

definition goes_on :: "(nat \<Rightarrow> 'a PaginatedResponse) \<Rightarrow> nat \<Rightarrow> nat \<Rightarrow> bool" where
  "goes_on pg cap m \<longleftrightarrow>
     truthy (paging_next (pg m)) \<and> length (first_pages pg (Suc m)) < cap"

definition stops_at :: "(nat \<Rightarrow> 'a PaginatedResponse) \<Rightarrow> nat \<Rightarrow> nat \<Rightarrow> bool" where
  "stops_at pg cap n \<longleftrightarrow> \<not> goes_on pg cap n \<and> list_all (goes_on pg cap) [0..<n]"

text \<open>A failed attempt of \<open>makeRequest\<close>, and the error the last failed attempt ends with.\<close>

definition failed_attempt :: "'a fetch_result \<Rightarrow> bool" where
  "failed_attempt r = (case attempt_once r of Returned v \<Rightarrow> False | _ \<Rightarrow> True)"




text \<open>A client that has made no call yet, and example upstreams for evaluating it.\<close>

definition start_world :: World where
  "start_world = \<lparr>calls = 0, sleeps = []\<rparr>"

definition invalid_token_then_ok :: "Url \<Rightarrow> nat \<Rightarrow> nat fetch_result" where
  "invalid_token_then_ok u k =
     (if k = 0 then HttpResponse 400 ''Bad Request'' (Json (Some ''Invalid OAuth access token'') 0)
      else HttpResponse 200 ''OK'' (Json None 7))"








definition first_page_of_two :: "nat PaginatedResponse" where
  "first_page_of_two =
     \<lparr>data = replicate 25 1, paging_next = Some ''https://graph.facebook.com/next?after=abc''\<rparr>"

definition cursor_upstream :: "Url \<Rightarrow> nat \<Rightarrow> nat PaginatedResponse fetch_result" where
  "cursor_upstream u k =
     HttpResponse 200 ''OK''
       (Json None
         (if map_of (searchParams u) ''after'' = None then first_page_of_two
          else \<lparr>data = [2], paging_next = None\<rparr>))"

section \<open>Token encryption (src/lib/meta.ts)\<close>

text \<open>
  Buffers are lists of bytes. A JavaScript string is given by its UTF-8 bytes, which is
  what an Isabelle string is a list of; strings with unpaired surrogates, which have no
  UTF-8 form, are outside the model, and so is the replacement of ill-formed bytes by
  \<open>U+FFFD\<close> when a buffer is decoded.
\<close>

type_synonym byte = "8 word"

type_synonym Buffer = "byte list"

definition utf8_bytes :: "string \<Rightarrow> Buffer" where
  "utf8_bytes s = map (\<lambda>c. of_nat (of_char c)) s"

definition utf8_string :: "Buffer \<Rightarrow> string" where
  "utf8_string b = map (\<lambda>w. char_of (unat w)) b"

text \<open>\<open>buf.toString('hex')\<close> and \<open>Buffer.from(s, 'hex')\<close>; decoding stops at the first
  pair of characters that is not a pair of hex digits.\<close>

definition hex_digit :: "nat \<Rightarrow> char" where
  "hex_digit n = (if n < 10 then char_of (48 + n) else char_of (87 + n))"

definition hex_value :: "char \<Rightarrow> nat option" where
  "hex_value c =
     (let k = (of_char c :: nat)
      in if 48 \<le> k \<and> k \<le> 57 then Some (k - 48)
         else if 97 \<le> k \<and> k \<le> 102 then Some (k - 87)
         else if 65 \<le> k \<and> k \<le> 70 then Some (k - 55)
         else None)"

definition toHex :: "Buffer \<Rightarrow> string" where
  "toHex bs = concat (map (\<lambda>b. [hex_digit (unat b div 16), hex_digit (unat b mod 16)]) bs)"

fun fromHex :: "string \<Rightarrow> Buffer" where
  "fromHex (a # b # rest) =
     (case (hex_value a, hex_value b) of
        (Some x, Some y) \<Rightarrow> of_nat (16 * x + y) # fromHex rest
      | _ \<Rightarrow> [])"
| "fromHex _ = []"

text \<open>\<open>s.split(c)\<close> for a one-character separator.\<close>

fun split_on :: "char \<Rightarrow> string \<Rightarrow> string list" where
  "split_on c [] = [[]]"
| "split_on c (x # xs) =
     (if x = c then [] # split_on c xs
      else (case split_on c xs of p # ps \<Rightarrow> (x # p) # ps | [] \<Rightarrow> [[x]]))"

text \<open>
  Node's \<open>crypto\<close> module is a parameter. \<open>createCipher(algorithm, password)\<close> and
  \<open>createDecipher(algorithm, password)\<close> take no initialization vector: they derive the
  cipher key and the IV from the password. In GCM the ciphertext is the plaintext XORed
  with a keystream fixed by key and IV, hence here by the password alone, and the
  authentication tag is a function of the same and of the ciphertext. \<open>keystream lib
  password i\<close> is byte \<open>i\<close> of that keystream, \<open>auth_tag lib password ciphertext\<close> the tag.
\<close>

record Crypto =
  keystream :: "Buffer \<Rightarrow> nat \<Rightarrow> byte"
  auth_tag :: "Buffer \<Rightarrow> Buffer \<Rightarrow> Buffer"

fun xor_from :: "(nat \<Rightarrow> byte) \<Rightarrow> nat \<Rightarrow> Buffer \<Rightarrow> Buffer" where
  "xor_from ks i [] = []"
| "xor_from ks i (b # bs) = (b XOR ks i) # xor_from ks (Suc i) bs"

datatype crypto_error = UndefinedPart | AuthenticationFailed

text \<open>
  \<open>encrypt\<close>: \<open>env_key\<close> is \<open>process.env.ENCRYPTION_KEY\<close>, \<open>iv\<close> the bytes that
  \<open>crypto.randomBytes(16)\<close> returns to this call. The \<open>iv\<close> is written into the
  envelope; the cipher is created from the algorithm and the key.
\<close>

definition encrypt :: "Crypto \<Rightarrow> string \<Rightarrow> Buffer \<Rightarrow> string \<Rightarrow> string" where
  "encrypt lib env_key iv text =
     (let key = fromHex env_key;
          ciphertext = xor_from (keystream lib key) 0 (utf8_bytes text);
          encrypted = toHex ciphertext;
          authTag = auth_tag lib key ciphertext
      in toHex iv @ '':'' @ toHex authTag @ '':'' @ encrypted)"

text \<open>
  \<open>decrypt\<close>: a missing second or third part is \<open>undefined\<close>, which \<open>Buffer.from\<close> and
  \<open>decipher.update\<close> reject; \<open>decipher.final\<close> throws when the tag does not verify. The
  \<open>iv\<close> read from the envelope is not given to the decipher.
\<close>

definition decrypt :: "Crypto \<Rightarrow> string \<Rightarrow> string \<Rightarrow> crypto_error + string" where
  "decrypt lib env_key encryptedText =
     (let key = fromHex env_key;
          parts = split_on CHR '':'' encryptedText
      in case parts of
           p0 # p1 # p2 # _ \<Rightarrow>
             (let iv = fromHex p0;
                  authTag = fromHex p1;
                  ciphertext = fromHex p2
              in if auth_tag lib key ciphertext = authTag
                 then Inr (utf8_string (xor_from (keystream lib key) 0 ciphertext))
                 else Inl AuthenticationFailed)
         | _ \<Rightarrow> Inl UndefinedPart)"

section \<open>The analyze-sentiment worker (src/lib/workers/analyze-sentiment.ts)\<close>

text \<open>
  The tables \<open>comment\<close> and \<open>analysis\<close> are lists of rows. The analysis engine is a
  parameter: on a text it returns a result or throws. Scores are floating point numbers
  that the worker only copies; their type is left open. The field \<open>keywords\<close> of a
  result is \<open>keyword_list\<close> here.
\<close>

record Comment =
  comment_id :: string
  message :: string

datatype Sentiment = POSITIVE | NEGATIVE | NEUTRAL

record 'n AnalysisResult =
  sentimentLabel :: Sentiment
  sentimentScore :: 'n
  toxicityScore :: 'n
  language :: "string option"
  keyword_list :: "string list option"
  claims :: "string list option"
  factualAccuracy :: "string option"
  modelName :: string
  modelVersion :: "string option"

record 'n Analysis =
  commentId :: string
  row_language :: "string option"
  row_sentimentLabel :: Sentiment
  row_sentimentScore :: 'n
  row_toxicityScore :: 'n
  row_keywords :: "string list"
  row_claims :: "string list"
  row_factualAccuracy :: "string option"
  row_modelName :: string
  row_modelVersion :: "string option"
  analyzedAt :: int

record 'n Db =
  comments :: "Comment list"
  analyses :: "'n Analysis list"

datatype worker_exn = WorkerError string

definition analysis_row :: "string \<Rightarrow> 'n AnalysisResult \<Rightarrow> int \<Rightarrow> 'n Analysis" where
  "analysis_row cid result now =
     \<lparr>commentId = cid,
      row_language = language result,
      row_sentimentLabel = sentimentLabel result,
      row_sentimentScore = sentimentScore result,
      row_toxicityScore = toxicityScore result,
      row_keywords = (case keyword_list result of Some ks \<Rightarrow> ks | None \<Rightarrow> []),
      row_claims = (case claims result of Some cs \<Rightarrow> cs | None \<Rightarrow> []),
      row_factualAccuracy = factualAccuracy result,
      row_modelName = modelName result,
      row_modelVersion = modelVersion result,
      analyzedAt = now\<rparr>"

definition analyzeSentiment ::
  "(string \<Rightarrow> worker_exn + 'n AnalysisResult) \<Rightarrow> string \<Rightarrow> int \<Rightarrow> 'n Db \<Rightarrow>
     (worker_exn + unit) \<times> 'n Db" where
  "analyzeSentiment engine cid now db =
     (case find (\<lambda>c. comment_id c = cid) (comments db) of
        None \<Rightarrow> (Inl (WorkerError (''Comment not found: '' @ cid)), db)
      | Some comment \<Rightarrow>
          (case find (\<lambda>a. commentId a = comment_id comment) (analyses db) of
             Some existingAnalysis \<Rightarrow> (Inr (), db)
           | None \<Rightarrow>
               (case engine (message comment) of
                  Inl e \<Rightarrow> (Inl e, db)
                | Inr result \<Rightarrow>
                    (Inr (),
                     db\<lparr>analyses := analyses db @ [analysis_row (comment_id comment) result now]\<rparr>))))"

text \<open>
  Deliveries of the job that overlap. A run of the worker suspends at each of its
  \<open>await\<close>s, so it is a small process: \<open>AtStart\<close> before \<open>comment.findUnique\<close>,
  \<open>HasComment\<close> before \<open>analysis.findFirst\<close>, \<open>CheckedNone\<close> once that has found nothing
  and before \<open>engine.analyze\<close>, \<open>HasResult\<close> before \<open>analysis.create\<close>, \<open>Ended\<close> when it
  has returned or thrown. A delivery is the comment id of its job, the engine and the
  clock of its run; a schedule names, step by step, the run that moves next.
\<close>

datatype 'n run_pc =
    AtStart
  | HasComment Comment
  | CheckedNone Comment
  | HasResult Comment "'n AnalysisResult"
  | Ended "worker_exn + unit"

fun analyze_step ::
  "(string \<Rightarrow> worker_exn + 'n AnalysisResult) \<Rightarrow> string \<Rightarrow> int \<Rightarrow> 'n run_pc \<times> 'n Db \<Rightarrow>
     'n run_pc \<times> 'n Db" where
  "analyze_step engine cid now (AtStart, db) =
     (case find (\<lambda>c. comment_id c = cid) (comments db) of
        None \<Rightarrow> (Ended (Inl (WorkerError (''Comment not found: '' @ cid))), db)
      | Some comment \<Rightarrow> (HasComment comment, db))"
| "analyze_step engine cid now (HasComment comment, db) =
     (case find (\<lambda>a. commentId a = comment_id comment) (analyses db) of
        Some existingAnalysis \<Rightarrow> (Ended (Inr ()), db)
      | None \<Rightarrow> (CheckedNone comment, db))"
| "analyze_step engine cid now (CheckedNone comment, db) =
     (case engine (message comment) of
        Inl e \<Rightarrow> (Ended (Inl e), db)
      | Inr result \<Rightarrow> (HasResult comment result, db))"
| "analyze_step engine cid now (HasResult comment result, db) =
     (Ended (Inr ()),
      db\<lparr>analyses := analyses db @ [analysis_row (comment_id comment) result now]\<rparr>)"
| "analyze_step engine cid now (Ended r, db) = (Ended r, db)"

record 'n Delivery =
  of_comment :: string
  engine_of :: "string \<Rightarrow> worker_exn + 'n AnalysisResult"
  clock_of :: int

type_synonym 'n Runs = "('n Delivery \<times> 'n run_pc) list"

definition start_runs :: "'n Delivery list \<Rightarrow> 'n Runs" where
  "start_runs ds = map (\<lambda>d. (d, AtStart)) ds"

definition deliver_step :: "nat \<Rightarrow> 'n Runs \<times> 'n Db \<Rightarrow> 'n Runs \<times> 'n Db" where
  "deliver_step i st =
     (case st of (runs, db) \<Rightarrow>
        if i < length runs then
          (case runs ! i of (d, pc) \<Rightarrow>
             (case analyze_step (engine_of d) (of_comment d) (clock_of d) (pc, db) of
                (pc', db') \<Rightarrow> (runs[i := (d, pc')], db')))
        else st)"

definition run_schedule :: "nat list \<Rightarrow> 'n Runs \<times> 'n Db \<Rightarrow> 'n Runs \<times> 'n Db" where
  "run_schedule sch st = fold deliver_step sch st"

text \<open>
  One run after the other: run \<open>0\<close> takes its four steps, then run \<open>1\<close>, and so on.
\<close>

definition in_turn :: "nat \<Rightarrow> nat list" where
  "in_turn n = concat (map (\<lambda>i. [i, i, i, i]) [0..<n])"

text \<open>
  A step is a fresh write unless it is the \<open>analysis.create\<close> of a run and an Analysis
  for the comment is in the table by now, written by another run since this run's check.
\<close>

definition fresh_write :: "nat \<Rightarrow> 'n Runs \<times> 'n Db \<Rightarrow> bool" where
  "fresh_write i st =
     (case st of (runs, db) \<Rightarrow>
        if i < length runs then
          (case snd (runs ! i) of
             HasResult comment result \<Rightarrow>
               find (\<lambda>a. commentId a = comment_id comment) (analyses db) = None
           | _ \<Rightarrow> True)
        else True)"

fun fresh_writes :: "nat list \<Rightarrow> 'n Runs \<times> 'n Db \<Rightarrow> bool" where
  "fresh_writes [] st = True"
| "fresh_writes (i # sch) st = (fresh_write i st \<and> fresh_writes sch (deliver_step i st))"

text \<open>What a run has established by its check holds as long as no other run writes.\<close>

definition pending_ok :: "'n run_pc \<Rightarrow> 'n Db \<Rightarrow> bool" where
  "pending_ok pc db =
     (case pc of
        CheckedNone comment \<Rightarrow>
          find (\<lambda>a. commentId a = comment_id comment) (analyses db) = None
      | HasResult comment result \<Rightarrow>
          find (\<lambda>a. commentId a = comment_id comment) (analyses db) = None
      | _ \<Rightarrow> True)"

definition analyses_for :: "string \<Rightarrow> 'n Db \<Rightarrow> 'n Analysis list" where
  "analyses_for cid db = filter (\<lambda>a. commentId a = cid) (analyses db)"

text \<open>Examples for evaluating the vault and the worker.\<close>

definition example_crypto :: Crypto where
  "example_crypto =
     \<lparr>keystream = (\<lambda>key i. of_nat (length key + 7 * i)),
      auth_tag = (\<lambda>key ct. [of_nat (length ct), of_nat (length key)])\<rparr>"

definition example_result :: "nat AnalysisResult" where
  "example_result =
     \<lparr>sentimentLabel = POSITIVE, sentimentScore = 1, toxicityScore = 0, language = Some ''en'',
      keyword_list = None, claims = None, factualAccuracy = None, modelName = ''local'',
      modelVersion = None\<rparr>"

definition example_db :: "nat Db" where
  "example_db = \<lparr>comments = [\<lparr>comment_id = ''c1'', message = ''great post''\<rparr>], analyses = []\<rparr>"

definition example_delivery :: "int \<Rightarrow> nat Delivery" where
  "example_delivery t =
     \<lparr>of_comment = ''c1'', engine_of = (\<lambda>text. Inr example_result), clock_of = t\<rparr>"

section \<open>Properties of the job store\<close>

lemma find_job_Some_id: "find_job i s = Some j \<Longrightarrow> job_id j = i"
  unfolding find_job_def by (induction "jobs s" arbitrary: s) (auto simp: find_Some_iff)

lemma find_job_Some_mem: "find_job i s = Some j \<Longrightarrow> j \<in> set (jobs s)"
  unfolding find_job_def by (auto simp: find_Some_iff)

lemma find_map_upd:
  "find (\<lambda>j. job_id j = i) (map (\<lambda>j. if job_id j = k then f j else j) js) =
     (case find (\<lambda>j. job_id j = i) js of
        None \<Rightarrow> None
      | Some j \<Rightarrow> Some (if job_id j = k then f j else j))"
  if "\<And>j. job_id (f j) = job_id j"
  using that by (induction js) auto

text \<open>
  C10. For a job id present in the store, \<open>completeJob\<close> succeeds whatever the job's
  current status is; afterwards the job has status COMPLETED and \<open>completedAt\<close> stamped
  with the current time, all its other fields are as before, and every other row of the
  table is untouched.
\<close>

theorem completeJob_unconditional:
  "find_job jobId s = Some j \<Longrightarrow>
     (\<exists>s'. completeJob jobId now s = Inr s' \<and>
        find_job jobId s' = Some (j\<lparr>status := COMPLETED, completedAt := Some now\<rparr>) \<and>
        (\<forall>i. i \<noteq> jobId \<longrightarrow> find_job i s' = find_job i s) \<and>
        length (jobs s') = length (jobs s) \<and> nextId s' = nextId s)"
proof -
  assume j: "find_job jobId s = Some j"
  let ?f = "\<lambda>j::Job. j\<lparr>status := COMPLETED, completedAt := Some now\<rparr>"
  let ?s' = "update_job jobId ?f s"
  have id: "job_id j = jobId" using j by (rule find_job_Some_id)
  have c: "completeJob jobId now s = Inr ?s'"
    using j by (simp add: completeJob_def)
  have l: "find_job i ?s' =
      (case find_job i s of None \<Rightarrow> None
       | Some j \<Rightarrow> Some (if job_id j = jobId then ?f j else j))" for i
    unfolding find_job_def update_job_def by (simp add: find_map_upd)
  have a: "find_job jobId ?s' = Some (?f j)"
    using j id by (simp add: l)
  have b: "find_job i ?s' = find_job i s" if "i \<noteq> jobId" for i
  proof (cases "find_job i s")
    case None
    then show ?thesis by (simp add: l)
  next
    case (Some k)
    then have "job_id k = i" by (rule find_job_Some_id)
    with Some that show ?thesis by (simp add: l)
  qed
  have d: "length (jobs ?s') = length (jobs s) \<and> nextId ?s' = nextId s"
    by (simp add: update_job_def)
  from c a b d show ?thesis by blast
qed

theorem completeJob_unconditional_witness:
  "find_job 0 (example_store FETCH_POSTS FAILED 3 3) = Some (example_job FETCH_POSTS FAILED 3 3) \<and>
   completeJob 0 99 (example_store FETCH_POSTS FAILED 3 3) =
     Inr \<lparr>jobs = [(example_job FETCH_POSTS FAILED 3 3)\<lparr>status := COMPLETED, completedAt := Some 99\<rparr>],
          nextId = 1\<rparr>"
  using completeJob_unconditional [of 0 "example_store FETCH_POSTS FAILED 3 3"
      "example_job FETCH_POSTS FAILED 3 3" 99]
  by (simp add: find_job_def completeJob_def update_job_def example_store_def example_job_def)

lemma find_job_update:
  "(\<And>j. job_id (f j) = job_id j) \<Longrightarrow>
   find_job i (update_job k f s) =
     (case find_job i s of None \<Rightarrow> None
      | Some j \<Rightarrow> Some (if job_id j = k then f j else j))"
  unfolding find_job_def update_job_def by (simp add: find_map_upd)

lemma calculateBackoffDelay_cap: "calculateBackoffDelay n \<le> 300000"
  by (simp add: calculateBackoffDelay_def)




lemma find_append_Some: "find P xs = Some x \<Longrightarrow> find P (xs @ ys) = Some x"
  by (induction xs) auto

lemma list_all_mapI: "(\<And>x. x \<in> set xs \<Longrightarrow> P (g x)) \<Longrightarrow> list_all P (map g xs)"
  by (simp add: list_all_iff)

lemma earliest_mem: "earliest js = Some j \<Longrightarrow> j \<in> set js"
  by (induction js arbitrary: j) (auto split: option.splits if_splits)

lemma findFirst_Some: "findFirst now s = Some j \<Longrightarrow> j \<in> set (jobs s) \<and> eligible now j"
  unfolding findFirst_def by (drule earliest_mem) simp

lemma jobs_update_job: "jobs (update_job k f s) = map (\<lambda>j. if job_id j = k then f j else j) (jobs s)"
  by (simp add: update_job_def)

lemma nextId_update_job: "nextId (update_job k f s) = nextId s"
  by (simp add: update_job_def)

lemma ids_update_job:
  "(\<And>j. job_id (f j) = job_id j) \<Longrightarrow> map job_id (jobs (update_job k f s)) = map job_id (jobs s)"
  by (simp add: jobs_update_job comp_def cong: map_cong)

lemma wf_ids_update_job:
  "(\<And>j. job_id (f j) = job_id j) \<Longrightarrow> wf_ids s \<Longrightarrow> wf_ids (update_job k f s)"
  unfolding wf_ids_def
  by (simp add: ids_update_job nextId_update_job) (auto simp: jobs_update_job list_all_iff)

lemma wf_ids_same_id:
  "wf_ids s \<Longrightarrow> j \<in> set (jobs s) \<Longrightarrow> k \<in> set (jobs s) \<Longrightarrow> job_id j = job_id k \<Longrightarrow> j = k"
  unfolding wf_ids_def by (auto simp: distinct_map dest: inj_onD)

lemma wf_ids_find_job:
  "wf_ids s \<Longrightarrow> j \<in> set (jobs s) \<Longrightarrow> find_job (job_id j) s = Some j"
proof -
  assume w: "wf_ids s" and j: "j \<in> set (jobs s)"
  then obtain k where k: "find_job (job_id j) s = Some k"
    unfolding find_job_def by (cases "find (\<lambda>x. job_id x = job_id j) (jobs s)") (auto simp: find_None_iff)
  then have "k \<in> set (jobs s)" "job_id k = job_id j"
    by (auto dest: find_job_Some_mem find_job_Some_id)
  with w j have "k = j" by (auto dest: wf_ids_same_id)
  with k show ?thesis by simp
qed

lemma failJob_as_steps:
  "failJob jobId err now s =
     (case find_job jobId s of None \<Rightarrow> s | Some job \<Rightarrow> fail_update job err now s)"
  by (auto simp: failJob_def fail_update_def Let_def dest: find_job_Some_id split: option.splits)

lemma steps_of_claim:
  "store (run_steps (steps_of c (ClaimNext now started)) sys) = snd (getNextJob now started (store sys))"
  by (simp add: run_steps_def getNextJob_def split: option.splits)

lemma steps_of_fail:
  "store (run_steps (steps_of c (Fail jobId err now)) sys) = failJob jobId err now (store sys)"
  by (simp add: run_steps_def failJob_as_steps split: option.splits)

lemma steps_of_enqueue:
  "store (run_steps (steps_of c (Enqueue ty pl maxA sched now)) sys) =
     snd (enqueue ty pl maxA sched now (store sys))"
  by (simp add: run_steps_def)

lemma steps_of_complete:
  "store (run_steps (steps_of c (Complete jobId now)) sys) =
     (case completeJob jobId now (store sys) of Inl e \<Rightarrow> store sys | Inr s' \<Rightarrow> s')"
  by (simp add: run_steps_def split: sum.splits)

text \<open>Every step leaves the table as it is, appends a row, or updates the rows of one id.\<close>

lemma exec_store:
  "store (exec x sys) = store sys \<or>
   (\<exists>ty pl maxA sched now. x = Create ty pl maxA sched now \<and>
      store (exec x sys) = snd (enqueue ty pl maxA sched now (store sys))) \<or>
   (\<exists>k f. keeps f \<and> store (exec x sys) = update_job k f (store sys))"
proof (cases x)
  case (ClaimUpdate c t)
  show ?thesis
  proof (cases "locals sys c")
    case (Claiming job)
    have "keeps (markRunning t)" by (simp add: keeps_def markRunning_def)
    moreover have "store (exec x sys) = update_job (job_id job) (markRunning t) (store sys)"
      using ClaimUpdate Claiming by simp
    ultimately show ?thesis by blast
  qed (simp_all add: ClaimUpdate)
next
  case (CompleteUpdate jobId now)
  show ?thesis
  proof (cases "find_job jobId (store sys)")
    case None
    then show ?thesis using CompleteUpdate by (simp add: completeJob_def)
  next
    case (Some job)
    have "keeps (\<lambda>j. j\<lparr>status := COMPLETED, completedAt := Some now\<rparr>)"
      by (simp add: keeps_def)
    moreover have "store (exec x sys) =
        update_job jobId (\<lambda>j. j\<lparr>status := COMPLETED, completedAt := Some now\<rparr>) (store sys)"
      using CompleteUpdate Some by (simp add: completeJob_def)
    ultimately show ?thesis by blast
  qed
next
  case (FailUpdate c err now)
  show ?thesis
  proof (cases "locals sys c")
    case (Failing job)
    let ?f = "\<lambda>j. j\<lparr>status := (if int (attempts job) < maxAttempts job then QUEUED else FAILED),
                  lastError := Some err,
                  scheduledAt :=
                    (if int (attempts job) < maxAttempts job
                     then now + calculateBackoffDelay (attempts job) else scheduledAt j),
                  startedAt := None\<rparr>"
    have "keeps ?f" by (simp add: keeps_def)
    moreover have "store (exec x sys) = update_job (job_id job) ?f (store sys)"
      using FailUpdate Failing by (simp add: fail_update_def Let_def)
    ultimately show ?thesis by blast
  qed (simp_all add: FailUpdate)
qed auto

lemma wf_ids_enqueue: "wf_ids s \<Longrightarrow> wf_ids (snd (enqueue ty pl maxA sched now s))"
  by (auto simp: wf_ids_def enqueue_def Let_def list_all_iff)

lemma wf_ids_exec: "wf_ids (store sys) \<Longrightarrow> wf_ids (store (exec x sys))"
  using exec_store[of x sys]
  by (auto simp: keeps_def intro!: wf_ids_enqueue wf_ids_update_job)

lemma known_enqueue: "known job s \<Longrightarrow> known job (snd (enqueue ty pl maxA sched now s))"
  by (auto simp: known_def enqueue_def Let_def find_job_def find_append_Some split: option.splits)

lemma known_update_job: "keeps f \<Longrightarrow> known job s \<Longrightarrow> known job (update_job k f s)"
  by (auto simp: known_def keeps_def find_job_update split: option.splits)

lemma known_exec: "known job (store sys) \<Longrightarrow> known job (store (exec x sys))"
  using exec_store[of x sys] by (auto intro: known_enqueue known_update_job)

lemma local_ok_exec_store:
  "local_ok (store sys) l \<Longrightarrow> local_ok (store (exec x sys)) l"
  by (cases l) (auto simp: local_ok_def intro: known_exec)

lemma exec_locals:
  "locals (exec x sys) c = locals sys c \<or> locals (exec x sys) c = NoJob \<or>
   (\<exists>t job. x = ClaimQuery c t \<and> findFirst t (store sys) = Some job \<and>
      store (exec x sys) = store sys \<and> locals (exec x sys) c = Claiming job) \<or>
   (\<exists>jobId job. x = FailQuery c jobId \<and> find_job jobId (store sys) = Some job \<and>
      store (exec x sys) = store sys \<and> locals (exec x sys) c = Failing job)"
proof (cases x)
  case (ClaimQuery c' t)
  then show ?thesis by (auto split: option.splits)
next
  case (ClaimUpdate c' t)
  then show ?thesis by (cases "locals sys c'") auto
next
  case (CompleteUpdate jobId now)
  then show ?thesis by (auto split: sum.splits)
next
  case (FailQuery c' jobId)
  then show ?thesis by (auto split: option.splits)
next
  case (FailUpdate c' err now)
  then show ?thesis by (cases "locals sys c'") auto
qed auto

lemma known_self: "wf_ids s \<Longrightarrow> job \<in> set (jobs s) \<Longrightarrow> known job s"
  by (simp add: known_def wf_ids_find_job)

lemma sys_ok_exec:
  assumes "sys_ok sys"
  shows "sys_ok (exec x sys)"
proof -
  from assms have w: "wf_ids (store sys)" and l: "\<And>c. local_ok (store sys) (locals sys c)"
    by (auto simp: sys_ok_def)
  have "local_ok (store (exec x sys)) (locals (exec x sys) c)" for c
    using exec_locals[of x sys c]
  proof (elim disjE exE conjE)
    assume "locals (exec x sys) c = locals sys c"
    with l[of c] show ?thesis by (simp add: local_ok_exec_store)
  next
    assume "locals (exec x sys) c = NoJob"
    then show ?thesis by (simp add: local_ok_def)
  next
    fix t job
    assume "findFirst t (store sys) = Some job" "store (exec x sys) = store sys"
      "locals (exec x sys) c = Claiming job"
    with w show ?thesis
      by (auto simp: local_ok_def eligible_def dest!: findFirst_Some intro: known_self)
  next
    fix jobId job
    assume "find_job jobId (store sys) = Some job" "store (exec x sys) = store sys"
      "locals (exec x sys) c = Failing job"
    with w show ?thesis
      by (auto simp: local_ok_def dest!: find_job_Some_mem intro: known_self)
  qed
  with w show ?thesis by (simp add: sys_ok_def wf_ids_exec)
qed

lemma sys_ok_run_steps: "sys_ok sys \<Longrightarrow> sys_ok (run_steps steps sys)"
  by (induction steps arbitrary: sys) (simp_all add: run_steps_def sys_ok_exec)

lemma sys_ok_init: "sys_ok init_sys"
  by (simp add: sys_ok_def init_sys_def wf_ids_def empty_store_def local_ok_def)


lemma held_row:
  assumes ok: "sys_ok sys" and l: "locals sys c = Claiming job \<or> locals sys c = Failing job"
    and u: "unchanged_since_read job (store sys)"
  shows "\<exists>row. find_job (job_id job) (store sys) = Some row \<and> row \<in> set (jobs (store sys)) \<and>
           attempts row = attempts job \<and> maxAttempts row = maxAttempts job"
proof -
  from ok have "local_ok (store sys) (locals sys c)" by (simp add: sys_ok_def)
  with l have "known job (store sys)" by (auto simp: local_ok_def)
  with u show ?thesis
    by (auto simp: known_def unchanged_since_read_def split: option.splits dest: find_job_Some_mem)
qed

lemma claiming_below:
  "sys_ok sys \<Longrightarrow> locals sys c = Claiming job \<Longrightarrow> int (attempts job) < maxAttempts job"
  by (auto simp: sys_ok_def local_ok_def dest: spec[where x = c])

lemma only_row:
  assumes "sys_ok sys" "find_job i (store sys) = Some row" "j \<in> set (jobs (store sys))" "job_id j = i"
  shows "j = row"
proof -
  from assms(2) have "row \<in> set (jobs (store sys))" "job_id row = i"
    by (auto dest: find_job_Some_mem find_job_Some_id)
  with assms show ?thesis by (auto simp: sys_ok_def dest: wf_ids_same_id)
qed

lemma bounded_exec:
  assumes ok: "sys_ok sys" and b: "list_all bounded (jobs (store sys))"
    and n: "create_nonneg x" and f: "fresh x sys"
  shows "list_all bounded (jobs (store (exec x sys)))"
proof (cases x)
  case (Create ty pl maxA sched now)
  then show ?thesis using b n by (simp add: enqueue_def Let_def bounded_def)
next
  case (ClaimQuery c t)
  then show ?thesis using b by simp
next
  case (ClaimUpdate c t)
  show ?thesis
  proof (cases "locals sys c")
    case (Claiming job)
    with f ClaimUpdate have "unchanged_since_read job (store sys)" by simp
    from held_row[OF ok _ this, of c] Claiming obtain row where
      row: "find_job (job_id job) (store sys) = Some row" "attempts row = attempts job"
        "maxAttempts row = maxAttempts job" by auto
    have lt: "int (attempts job) < maxAttempts job" using ok Claiming by (rule claiming_below)
    let ?g = "\<lambda>j. if job_id j = job_id job then markRunning t j else j"
    have "bounded (?g j)" if "j \<in> set (jobs (store sys))" for j
    proof (cases "job_id j = job_id job")
      case True
      with only_row[OF ok row(1) that] have "j = row" by simp
      with True row lt show ?thesis by (simp add: bounded_def markRunning_def)
    next
      case False
      with b that show ?thesis by (simp add: list_all_iff)
    qed
    then have "list_all bounded (map ?g (jobs (store sys)))" by (rule list_all_mapI)
    then show ?thesis using ClaimUpdate Claiming by (simp add: jobs_update_job)
  qed (use b ClaimUpdate in simp_all)
next
  case (CompleteUpdate jobId now)
  then show ?thesis using b
    by (auto simp: completeJob_def jobs_update_job list_all_iff bounded_def split: option.splits)
next
  case (FailQuery c jobId)
  then show ?thesis using b by simp
next
  case (FailUpdate c err now)
  then show ?thesis using b
    by (cases "locals sys c")
      (auto simp: fail_update_def Let_def jobs_update_job list_all_iff bounded_def)
qed

lemma failed_spent_exec:
  assumes ok: "sys_ok sys" and b: "list_all failed_spent (jobs (store sys))" and f: "fresh x sys"
  shows "list_all failed_spent (jobs (store (exec x sys)))"
proof (cases x)
  case (Create ty pl maxA sched now)
  then show ?thesis using b by (simp add: enqueue_def Let_def failed_spent_def)
next
  case (ClaimQuery c t)
  then show ?thesis using b by simp
next
  case (ClaimUpdate c t)
  then show ?thesis using b
    by (cases "locals sys c")
      (auto simp: jobs_update_job list_all_iff failed_spent_def markRunning_def)
next
  case (CompleteUpdate jobId now)
  then show ?thesis using b
    by (auto simp: completeJob_def jobs_update_job list_all_iff failed_spent_def
        split: option.splits)
next
  case (FailQuery c jobId)
  then show ?thesis using b by simp
next
  case (FailUpdate c err now)
  show ?thesis
  proof (cases "locals sys c")
    case (Failing job)
    with f FailUpdate have "unchanged_since_read job (store sys)" by simp
    from held_row[OF ok _ this, of c] Failing obtain row where
      row: "find_job (job_id job) (store sys) = Some row" "attempts row = attempts job"
        "maxAttempts row = maxAttempts job" by auto
    let ?g = "\<lambda>j. if job_id j = job_id job then
            j\<lparr>status := (if int (attempts job) < maxAttempts job then QUEUED else FAILED),
              lastError := Some err,
              scheduledAt := (if int (attempts job) < maxAttempts job
                              then now + calculateBackoffDelay (attempts job) else scheduledAt j),
              startedAt := None\<rparr> else j"
    have "failed_spent (?g j)" if "j \<in> set (jobs (store sys))" for j
    proof (cases "job_id j = job_id job")
      case True
      with only_row[OF ok row(1) that] have "j = row" by simp
      with True row show ?thesis by (simp add: failed_spent_def)
    next
      case False
      with b that show ?thesis by (simp add: list_all_iff)
    qed
    then have "list_all failed_spent (map ?g (jobs (store sys)))" by (rule list_all_mapI)
    then show ?thesis using FailUpdate Failing
      by (simp add: fail_update_def Let_def jobs_update_job)
  qed (use b FailUpdate in simp_all)
qed

lemma spent_exec:
  assumes ok: "sys_ok sys" and f: "fresh x sys"
    and i: "find_job i (store sys) = Some j" and sp: "spent j"
  shows "\<exists>j'. find_job i (store (exec x sys)) = Some j' \<and> spent j'"
proof (cases x)
  case (Create ty pl maxA sched now)
  then show ?thesis using i sp by (simp add: enqueue_def Let_def find_job_def find_append_Some)
next
  case (ClaimQuery c t)
  then show ?thesis using i sp by simp
next
  case (ClaimUpdate c t)
  then show ?thesis using i sp
    by (cases "locals sys c") (auto simp: find_job_update markRunning_def spent_def)
next
  case (CompleteUpdate jobId now)
  then show ?thesis using i sp
    by (auto simp: completeJob_def find_job_update spent_def split: option.splits)
next
  case (FailQuery c jobId)
  then show ?thesis using i sp by simp
next
  case (FailUpdate c err now)
  show ?thesis
  proof (cases "locals sys c")
    case (Failing job)
    with f FailUpdate have "unchanged_since_read job (store sys)" by simp
    from held_row[OF ok _ this, of c] Failing obtain row where
      row: "find_job (job_id job) (store sys) = Some row" "attempts row = attempts job"
        "maxAttempts row = maxAttempts job" by auto
    show ?thesis
    proof (cases "job_id job = i")
      case True
      with row i have "row = j" by simp
      with True row sp i FailUpdate Failing find_job_Some_id[OF i] show ?thesis
        by (simp add: fail_update_def Let_def find_job_update spent_def)
    next
      case False
      with i sp FailUpdate Failing find_job_Some_id[OF i] show ?thesis
        by (simp add: fail_update_def Let_def find_job_update)
    qed
  qed (use i sp FailUpdate in simp_all)
qed

lemma to_failed_exec:
  assumes i: "find_job i (store sys) = Some j" and nf: "status j \<noteq> FAILED"
    and i': "find_job i (store (exec x sys)) = Some j'" and fl: "status j' = FAILED"
  shows "(\<exists>c err now job. x = FailUpdate c err now \<and> locals sys c = Failing job \<and> job_id job = i) \<and>
         attempts j' = attempts j \<and> maxAttempts j' = maxAttempts j"
proof (cases x)
  case (Create ty pl maxA sched now)
  then show ?thesis using i nf i' fl by (simp add: enqueue_def Let_def find_job_def find_append_Some)
next
  case (ClaimQuery c t)
  then show ?thesis using i nf i' fl by simp
next
  case (ClaimUpdate c t)
  then show ?thesis using i nf i' fl
    by (cases "locals sys c") (auto simp: find_job_update markRunning_def split: if_splits)
next
  case (CompleteUpdate jobId now)
  then show ?thesis using i nf i' fl
    by (auto simp: completeJob_def find_job_update split: option.splits if_splits)
next
  case (FailQuery c jobId)
  then show ?thesis using i nf i' fl by simp
next
  case (FailUpdate c err now)
  then show ?thesis using i nf i' fl find_job_Some_id[OF i]
    by (cases "locals sys c")
      (auto simp: fail_update_def Let_def find_job_update split: if_splits)
qed

lemma run_steps_Cons: "run_steps (x # xs) sys = run_steps xs (exec x sys)"
  by (simp add: run_steps_def)

lemma run_steps_append: "run_steps (xs @ ys) sys = run_steps ys (run_steps xs sys)"
  by (simp add: run_steps_def)

lemma fresh_run_append:
  "fresh_run (xs @ ys) sys \<longleftrightarrow> fresh_run xs sys \<and> fresh_run ys (run_steps xs sys)"
  by (induction xs arbitrary: sys) (simp_all add: run_steps_def)

lemma invariants_run_steps:
  assumes "sys_ok sys" "list_all failed_spent (jobs (store sys))" "fresh_run steps sys"
  shows "sys_ok (run_steps steps sys) \<and> list_all failed_spent (jobs (store (run_steps steps sys))) \<and>
         (list_all bounded (jobs (store sys)) \<longrightarrow> list_all create_nonneg steps \<longrightarrow>
            list_all bounded (jobs (store (run_steps steps sys))))"
  using assms
proof (induction steps arbitrary: sys)
  case Nil
  then show ?case by (simp add: run_steps_def)
next
  case (Cons x xs)
  from Cons.prems(3) have f: "fresh x sys" and fr: "fresh_run xs (exec x sys)" by simp_all
  have 1: "sys_ok (exec x sys)" using Cons.prems(1) by (rule sys_ok_exec)
  have 2: "list_all failed_spent (jobs (store (exec x sys)))"
    using Cons.prems(1,2) f by (rule failed_spent_exec)
  have 3: "list_all bounded (jobs (store (exec x sys)))"
    if "list_all bounded (jobs (store sys))" "create_nonneg x"
    using Cons.prems(1) that f by (rule bounded_exec)
  from Cons.IH[OF 1 2 fr] 3 show ?case by (auto simp: run_steps_Cons)
qed

lemma spent_run_steps:
  assumes "sys_ok sys" "fresh_run steps sys" "find_job i (store sys) = Some j" "spent j"
  shows "\<exists>j'. find_job i (store (run_steps steps sys)) = Some j' \<and> spent j'"
  using assms
proof (induction steps arbitrary: sys j)
  case Nil
  then show ?case by (simp add: run_steps_def)
next
  case (Cons x xs)
  from Cons.prems(2) have f: "fresh x sys" and fr: "fresh_run xs (exec x sys)" by simp_all
  from spent_exec[OF Cons.prems(1) f Cons.prems(3,4)] obtain k where
    k: "find_job i (store (exec x sys)) = Some k" "spent k" by blast
  from Cons.IH[OF sys_ok_exec[OF Cons.prems(1)] fr k] show ?case by (simp add: run_steps_Cons)
qed

lemma fresh_steps_of: "sys_ok sys \<Longrightarrow> fresh_run (steps_of c op) sys"
proof (cases op)
  case (ClaimNext now started)
  assume "sys_ok sys"
  then show ?thesis using ClaimNext
    by (auto simp: unchanged_since_read_def sys_ok_def wf_ids_find_job
        split: option.splits dest!: findFirst_Some)
next
  case (Fail jobId err now)
  have "find_job (job_id job) (store sys) = Some job"
    if "find_job jobId (store sys) = Some job" for job
    using that find_job_Some_id[OF that] by simp
  then show ?thesis using Fail
    by (auto simp: unchanged_since_read_def split: option.splits)
qed simp_all

lemma fresh_one_at_a_time: "sys_ok sys \<Longrightarrow> fresh_run (one_at_a_time cs) sys"
proof (induction cs arbitrary: sys)
  case Nil
  then show ?case by (simp add: one_at_a_time_def)
next
  case (Cons a cs)
  obtain c op where a: "a = (c, op)" by (cases a)
  have "sys_ok (run_steps (steps_of c op) sys)" using Cons.prems by (rule sys_ok_run_steps)
  then have "fresh_run (one_at_a_time cs) (run_steps (steps_of c op) sys)" by (rule Cons.IH)
  with fresh_steps_of[OF Cons.prems, of c op] show ?case
    by (simp add: one_at_a_time_def a fresh_run_append)
qed

text \<open>
  C2 (as the code has it). Start from the empty table and take any run of the database
  steps of enqueue, claimNext, complete and fail calls, interleaved in any way, in which
  every \<open>enqueue\<close> is given a \<open>maxAttempts\<close> that is not negative and every update of a
  claimNext or a fail is fresh: the row it writes still has the \<open>attempts\<close> that the call
  read, no other claim of that job having taken effect in between. Then every job has
  \<open>attempts \<le> maxAttempts\<close>; a fresh step that takes a job to FAILED is the update of a
  \<open>fail\<close> on that job, and the job then has \<open>attempts = maxAttempts\<close>; a job that is
  FAILED is never QUEUED again, whatever fresh steps follow; and the calls are fresh
  whenever they run one at a time, each finished before the next begins.
\<close>

theorem attempts_bounded_failed_terminal:
  assumes nn: "list_all create_nonneg steps" and fr: "fresh_run steps init_sys"
    and s: "sys = run_steps steps init_sys"
  shows "list_all (\<lambda>j. int (attempts j) \<le> maxAttempts j) (jobs (store sys)) \<and>
         (\<forall>x i j j'. fresh x sys \<and> find_job i (store sys) = Some j \<and> status j \<noteq> FAILED \<and>
              find_job i (store (exec x sys)) = Some j' \<and> status j' = FAILED \<longrightarrow>
              (\<exists>c err now job. x = FailUpdate c err now \<and> locals sys c = Failing job \<and>
                   job_id job = i) \<and>
              int (attempts j') = maxAttempts j') \<and>
         (\<forall>steps' i j. fresh_run steps' sys \<and> find_job i (store sys) = Some j \<and>
              status j = FAILED \<longrightarrow>
              (\<exists>j'. find_job i (store (run_steps steps' sys)) = Some j' \<and> status j' \<noteq> QUEUED)) \<and>
         (\<forall>cs. fresh_run (one_at_a_time cs) sys)"
proof -
  have e: "list_all failed_spent (jobs (store init_sys))" "list_all bounded (jobs (store init_sys))"
    by (simp_all add: init_sys_def empty_store_def)
  from invariants_run_steps[OF sys_ok_init e(1) fr] e(2) nn s
  have ok: "sys_ok sys" and fs: "list_all failed_spent (jobs (store sys))"
    and b: "list_all bounded (jobs (store sys))"
    by simp_all
  have 1: "list_all (\<lambda>j. int (attempts j) \<le> maxAttempts j) (jobs (store sys))"
    using b by (simp add: bounded_def[abs_def])
  have 2: "(\<exists>c err now job. x = FailUpdate c err now \<and> locals sys c = Failing job \<and>
               job_id job = i) \<and> int (attempts j') = maxAttempts j'"
    if f: "fresh x sys" and i: "find_job i (store sys) = Some j" "status j \<noteq> FAILED"
      and i': "find_job i (store (exec x sys)) = Some j'" "status j' = FAILED" for x i j j'
  proof -
    from i(1) have "j \<in> set (jobs (store sys))" by (rule find_job_Some_mem)
    with b have le: "int (attempts j) \<le> maxAttempts j" by (simp add: list_all_iff bounded_def)
    from i'(1) have "j' \<in> set (jobs (store (exec x sys)))" by (rule find_job_Some_mem)
    with failed_spent_exec[OF ok fs f] i'(2) have ge: "maxAttempts j' \<le> int (attempts j')"
      by (simp add: list_all_iff failed_spent_def)
    from to_failed_exec[OF i i'] le ge show ?thesis by auto
  qed
  have 3: "\<exists>j'. find_job i (store (run_steps steps' sys)) = Some j' \<and> status j' \<noteq> QUEUED"
    if "fresh_run steps' sys" "find_job i (store sys) = Some j" "status j = FAILED" for steps' i j
  proof -
    from that(2) have "j \<in> set (jobs (store sys))" by (rule find_job_Some_mem)
    with fs that(3) have "spent j" by (simp add: list_all_iff failed_spent_def spent_def)
    from spent_run_steps[OF ok that(1,2) this] show ?thesis by (auto simp: spent_def)
  qed
  have 4: "fresh_run (one_at_a_time cs) sys" for cs
    using ok by (rule fresh_one_at_a_time)
  from 1 2 3 4 show ?thesis by blast
qed

theorem attempts_bounded_failed_terminal_witness:
  "list_all create_nonneg (one_at_a_time example_calls) \<and>
   fresh_run (one_at_a_time example_calls) init_sys \<and>
   jobs (store (run_steps (one_at_a_time example_calls) init_sys)) =
     [(example_job FETCH_POSTS FAILED 1 1)\<lparr>scheduledAt := 0, lastError := Some ''boom''\<rparr>] \<and>
   fresh_run [ClaimQuery 2 7, FailQuery 3 0, ClaimUpdate 2 8, FailUpdate 3 ''again'' 9]
     (run_steps (one_at_a_time example_calls) init_sys) \<and>
   (\<exists>j'. find_job 0 (store (run_steps
              [ClaimQuery 2 7, FailQuery 3 0, ClaimUpdate 2 8, FailUpdate 3 ''again'' 9]
              (run_steps (one_at_a_time example_calls) init_sys))) = Some j' \<and>
         status j' \<noteq> QUEUED) \<and>
   list_all create_nonneg (one_at_a_time (butlast example_calls) @ [FailQuery 0 0]) \<and>
   fresh_run (one_at_a_time (butlast example_calls) @ [FailQuery 0 0]) init_sys \<and>
   fresh (FailUpdate 0 ''boom'' 6)
     (run_steps (one_at_a_time (butlast example_calls) @ [FailQuery 0 0]) init_sys) \<and>
   find_job 0 (store (run_steps (one_at_a_time (butlast example_calls) @ [FailQuery 0 0])
       init_sys)) =
     Some ((example_job FETCH_POSTS RUNNING 1 1)\<lparr>scheduledAt := 0, startedAt := Some 5\<rparr>) \<and>
   find_job 0 (store (exec (FailUpdate 0 ''boom'' 6)
       (run_steps (one_at_a_time (butlast example_calls) @ [FailQuery 0 0]) init_sys))) =
     Some ((example_job FETCH_POSTS FAILED 1 1)\<lparr>scheduledAt := 0, lastError := Some ''boom''\<rparr>)"
  using attempts_bounded_failed_terminal [of "one_at_a_time example_calls"
      "run_steps (one_at_a_time example_calls) init_sys"]
    attempts_bounded_failed_terminal [of "one_at_a_time (butlast example_calls) @ [FailQuery 0 0]"
      "run_steps (one_at_a_time (butlast example_calls) @ [FailQuery 0 0]) init_sys"]
  by (simp add: example_calls_def one_at_a_time_def run_steps_def init_sys_def empty_store_def
      enqueue_def findFirst_def eligible_def update_job_def markRunning_def fail_update_def
      find_job_def unchanged_since_read_def example_job_def)

text \<open>
  \<open>enqueue\<close> stores the \<open>maxAttempts\<close> it is given without checking it: a job enqueued
  with \<open>maxAttempts = -1\<close> has \<open>attempts = 0 > maxAttempts\<close> from the start. And two
  claims that interleave, both queries before either update, count two attempts on a job
  enqueued with \<open>maxAttempts = 1\<close>; the \<open>fail\<close> that follows sets it FAILED with
  \<open>attempts = 2\<close>.
\<close>

theorem attempts_bounded_counterexample:
  "\<not> list_all (\<lambda>j. int (attempts j) \<le> maxAttempts j)
       (jobs (store (run_steps [Create FETCH_POSTS [] (- 1) None 0] init_sys))) \<and>
   map (\<lambda>j. (status j, attempts j, maxAttempts j))
     (jobs (store (run_steps interleaved_claims init_sys))) = [(FAILED, 2, 1)]"
  by (simp add: interleaved_claims_def run_steps_def init_sys_def empty_store_def enqueue_def
      findFirst_def eligible_def update_job_def markRunning_def fail_update_def find_job_def)

lemma getNextJob_as_steps:
  "claim_step started (claim_step now (Idle, s)) =
     (Done (fst (getNextJob now started s)), snd (getNextJob now started s))"
  by (simp add: getNextJob_def split: option.splits)

lemma findFirst_after_claim:
  assumes "findFirst t2 (update_job (job_id j1) (markRunning t1) s) = Some j2"
  shows "job_id j1 \<noteq> job_id j2"
proof
  assume eq: "job_id j1 = job_id j2"
  from assms have m: "j2 \<in> set (jobs (update_job (job_id j1) (markRunning t1) s))"
    and e: "eligible t2 j2" by (auto dest: findFirst_Some)
  from m obtain j where "j \<in> set (jobs s)"
    and j2: "j2 = (if job_id j = job_id j1 then markRunning t1 j else j)"
    by (auto simp: jobs_update_job)
  show False
  proof (cases "job_id j = job_id j1")
    case True
    with j2 e show False by (simp add: eligible_def markRunning_def)
  next
    case False
    with j2 eq show False by simp
  qed
qed

text \<open>
  C1 (as the code has it). \<open>getNextJob\<close> is a \<open>findFirst\<close> query followed by a separate
  \<open>update\<close>, with nothing tying the two together. When one of two callers runs both of its
  steps before the other caller starts, the two never receive the same job id.
\<close>

theorem claims_one_after_the_other_differ:
  assumes "c \<noteq> c'"
    and "run_two [(c, n1), (c, t1), (c', n2), (c', t2)] (Idle, Idle, s) =
           (Done (Some ja), Done (Some jb), s')"
  shows "job_id ja \<noteq> job_id jb"
proof (cases c)
  case SchedulerA
  with assms(1) have c': "c' = SchedulerB" by (cases c') auto
  from assms(2) show ?thesis unfolding SchedulerA c'
    by (auto split: option.splits dest: findFirst_after_claim)
next
  case SchedulerB
  with assms(1) have c': "c' = SchedulerA" by (cases c') auto
  from assms(2) show ?thesis unfolding SchedulerB c'
    by (auto split: option.splits dest: findFirst_after_claim)
qed

theorem claims_one_after_the_other_differ_witness:
  "SchedulerA \<noteq> SchedulerB \<and>
   run_two [(SchedulerA, 100), (SchedulerA, 101), (SchedulerB, 102), (SchedulerB, 103)]
      (Idle, Idle, \<lparr>jobs = [example_job FETCH_POSTS QUEUED 0 3,
                            (example_job FETCH_COMMENTS QUEUED 0 3)\<lparr>job_id := 1\<rparr>], nextId = 2\<rparr>) =
   (Done (Some (example_job FETCH_POSTS QUEUED 0 3)),
    Done (Some ((example_job FETCH_COMMENTS QUEUED 0 3)\<lparr>job_id := 1\<rparr>)),
    \<lparr>jobs = [(example_job FETCH_POSTS RUNNING 1 3)\<lparr>startedAt := Some 101\<rparr>,
             (example_job FETCH_COMMENTS RUNNING 1 3)\<lparr>job_id := 1, startedAt := Some 103\<rparr>],
     nextId = 2\<rparr>) \<and>
   job_id (example_job FETCH_POSTS QUEUED 0 3) \<noteq>
   job_id ((example_job FETCH_COMMENTS QUEUED 0 3)\<lparr>job_id := 1\<rparr>)"
  using claims_one_after_the_other_differ [of SchedulerA SchedulerB 100 101 102 103
      "\<lparr>jobs = [example_job FETCH_POSTS QUEUED 0 3,
                (example_job FETCH_COMMENTS QUEUED 0 3)\<lparr>job_id := 1\<rparr>], nextId = 2\<rparr>"
      "example_job FETCH_POSTS QUEUED 0 3"
      "(example_job FETCH_COMMENTS QUEUED 0 3)\<lparr>job_id := 1\<rparr>"]
  by (simp add: example_job_def findFirst_def eligible_def update_job_def markRunning_def)

text \<open>
  When the two calls interleave, both queries run before either update: both callers
  receive job 0, and the row ends with \<open>attempts = 2\<close> after what each caller takes for
  its own first attempt.
\<close>

theorem claims_interleaved_same_job_counterexample:
  "run_two [(SchedulerA, 100), (SchedulerB, 101), (SchedulerA, 102), (SchedulerB, 103)]
      (Idle, Idle, example_store FETCH_POSTS QUEUED 0 3) =
   (Done (Some (example_job FETCH_POSTS QUEUED 0 3)),
    Done (Some (example_job FETCH_POSTS QUEUED 0 3)),
    \<lparr>jobs = [(example_job FETCH_POSTS RUNNING 2 3)\<lparr>startedAt := Some 103\<rparr>], nextId = 1\<rparr>)"
  by (simp add: example_store_def example_job_def findFirst_def eligible_def update_job_def
      markRunning_def)

text \<open>
  C4. A claimed job whose type is none of the five handled ones: the error thrown by the
  \<open>default\<close> arm of the \<open>switch\<close> carries no \<open>jobId\<close>, so the \<open>catch\<close> of
  \<open>processNextJob\<close> calls neither \<open>failJob\<close> nor \<open>completeJob\<close>. The tick ends with
  the job still RUNNING, its attempt counted, no \<open>lastError\<close> recorded and no retry
  scheduled, whatever the workers are.
\<close>

theorem unknown_job_type_left_running:
  "processNextJob w 100 101 200 (example_store (OTHER_TYPE ''EXPORT_DATA'') QUEUED 0 3) =
     \<lparr>jobs = [(example_job (OTHER_TYPE ''EXPORT_DATA'') RUNNING 1 3)\<lparr>startedAt := Some 101\<rparr>],
      nextId = 1\<rparr>"
  by (simp add: processNextJob_def getNextJob_def dispatch_def example_store_def example_job_def
      findFirst_def eligible_def update_job_def markRunning_def)

text \<open>
  The five handled types do end in \<open>failJob\<close> or \<open>completeJob\<close>: their wrappers attach
  the \<open>jobId\<close> that the \<open>catch\<close> looks for.
\<close>

lemma processNextJob_worker_throws:
  assumes "findFirst now s = Some job"
    and "job_type job = FETCH_POSTS"
    and "w job (update_job (job_id job) (markRunning started) s) = (WorkerThrowsError msg, s2)"
  shows "processNextJob w now started fin s =
           failJob (job_id job) (''Failed to fetch posts: '' @ msg) fin s2"
  using assms by (simp add: processNextJob_def getNextJob_def dispatch_def wrap_worker_def)

lemma processNextJob_worker_returns:
  assumes "findFirst now s = Some job"
    and "job_type job \<in> {FETCH_POSTS, FETCH_COMMENTS, ANALYZE_SENTIMENT, REFRESH_TOKENS, CLEANUP_DATA}"
    and "w job (update_job (job_id job) (markRunning started) s) = (WorkerReturns, s2)"
    and "completeJob (job_id job) fin s2 = Inr s3"
  shows "processNextJob w now started fin s = s3"
  using assms by (auto simp: processNextJob_def getNextJob_def dispatch_def wrap_worker_def)

section \<open>Properties of the API client\<close>


lemma makeRequest_loop_success:
  assumes "attempt + n < maxRetries"
    and "\<forall>i<n. failed_attempt (f (calls w + i))"
    and "attempt_once (f (calls w + n)) = Returned v"
  shows "makeRequest_loop f maxRetries attempt w =
           (Inr v, w\<lparr>calls := calls w + Suc n,
                     sleeps := sleeps w @ map backoff_delay [attempt..<attempt + n]\<rparr>)"
  using assms
proof (induction n arbitrary: attempt w)
  case 0
  then show ?case by (subst makeRequest_loop.simps) simp
next
  case (Suc n)
  let ?w = "w\<lparr>calls := Suc (calls w), sleeps := sleeps w @ [backoff_delay attempt]\<rparr>"
  from Suc.prems(2) have f0: "failed_attempt (f (calls w))" by force
  have a: "Suc attempt + n < maxRetries" using Suc.prems(1) by simp
  have b: "\<forall>i<n. failed_attempt (f (calls ?w + i))"
    using Suc.prems(2) by (auto dest: spec[where x = "Suc i" for i])
  have c: "attempt_once (f (calls ?w + n)) = Returned v" using Suc.prems(3) by simp
  have ne: "attempt \<noteq> maxRetries - 1" "attempt < maxRetries" using Suc.prems(1) by auto
  have step: "makeRequest_loop f maxRetries attempt w = makeRequest_loop f maxRetries (Suc attempt) ?w"
    using f0 ne
    by (subst makeRequest_loop.simps) (simp add: failed_attempt_def split: attempt.splits)
  have u: "[attempt..<attempt + Suc n] = attempt # [Suc attempt..<Suc attempt + n]"
    by (subst upt_rec) simp
  show ?case
    unfolding step Suc.IH[OF a b c] u
    by simp
qed







text \<open>
  A 400 response (invalid token) to an attempt that is not the last is caught by the same
  \<open>catch\<close> and retried: the request below succeeds on its second \<open>fetch\<close>.
\<close>

lemma invalid_token_is_retried:
  "makeRequest ''token'' invalid_token_then_ok ''/me'' [(''fields'', PStr ''id'')] 3 start_world =
     (Inr 7, \<lparr>calls = 2, sleeps = [1000]\<rparr>)"
proof -
  have "makeRequest_loop
          (invalid_token_then_ok (build_url ''token'' ''/me'' [(''fields'', PStr ''id'')]))
          3 0 start_world =
        (Inr 7, start_world\<lparr>calls := calls start_world + Suc 1,
                            sleeps := sleeps start_world @ map backoff_delay [0..<0 + 1]\<rparr>)"
    by (rule makeRequest_loop_success)
      (simp_all add: start_world_def invalid_token_then_ok_def failed_attempt_def
        attempt_once_def response_ok_def)
  then show ?thesis
    by (simp add: makeRequest_def start_world_def backoff_delay_def)
qed

lemma makeRequest_first_attempt:
  "attempt_once (fetch (build_url tok ep ps) (calls w)) = Returned p \<Longrightarrow>
   makeRequest tok fetch ep ps 3 w = (Inr p, w\<lparr>calls := Suc (calls w)\<rparr>)"
  unfolding makeRequest_def
  using makeRequest_loop_success[of 0 0 3 "fetch (build_url tok ep ps)" w p] by simp

lemma fetch_pages_run:
  assumes req: "\<And>w. request w = (Inr (pg (calls w)), w\<lparr>calls := Suc (calls w)\<rparr>)"
    and stop: "\<not> (truthy (paging_next (pg (calls w + n))) \<and>
                  length (items @ concat (map (\<lambda>k. data (pg k)) [calls w..<calls w + Suc n])) < cap)"
    and cont: "\<forall>m<n. truthy (paging_next (pg (calls w + m))) \<and>
                  length (items @ concat (map (\<lambda>k. data (pg k)) [calls w..<calls w + Suc m])) < cap"
  shows "fetch_pages request cap items w =
           Some (Inr (items @ concat (map (\<lambda>k. data (pg k)) [calls w..<calls w + Suc n])),
                 w\<lparr>calls := calls w + Suc n\<rparr>)"
  using stop cont
proof (induction n arbitrary: items w)
  case 0
  then show ?case
    by (subst fetch_pages.simps) (auto simp: req Let_def)
next
  case (Suc n)
  let ?w = "w\<lparr>calls := Suc (calls w)\<rparr>"
  let ?items = "items @ data (pg (calls w))"
  have u: "[calls w..<calls w + Suc (Suc m)] = calls w # [calls ?w..<calls ?w + Suc m]" for m
    by (subst upt_rec) simp
  have first: "truthy (paging_next (pg (calls w))) \<and> length ?items < cap"
    using Suc.prems(2)[rule_format, of 0] by simp
  have stop': "\<not> (truthy (paging_next (pg (calls ?w + n))) \<and>
      length (?items @ concat (map (\<lambda>k. data (pg k)) [calls ?w..<calls ?w + Suc n])) < cap)"
    using Suc.prems(1) unfolding u by simp
  have cont': "\<forall>m<n. truthy (paging_next (pg (calls ?w + m))) \<and>
      length (?items @ concat (map (\<lambda>k. data (pg k)) [calls ?w..<calls ?w + Suc m])) < cap"
  proof (intro allI impI)
    fix m assume "m < n"
    then have "Suc m < Suc n" by simp
    from Suc.prems(2)[rule_format, OF this] show
      "truthy (paging_next (pg (calls ?w + m))) \<and>
       length (?items @ concat (map (\<lambda>k. data (pg k)) [calls ?w..<calls ?w + Suc m])) < cap"
      unfolding u by simp
  qed
  have step: "fetch_pages request cap items w = fetch_pages request cap ?items ?w"
    using first by (subst fetch_pages.simps) (simp add: req Let_def)
  show ?case
    unfolding step Suc.IH[OF stop' cont'] u by simp
qed

lemma fetch_pages_from_start:
  assumes req: "\<And>w. request w = (Inr (pg (calls w)), w\<lparr>calls := Suc (calls w)\<rparr>)"
    and st: "stops_at pg cap n"
  shows "fetch_pages request cap [] start_world =
           Some (Inr (first_pages pg (Suc n)), start_world\<lparr>calls := Suc n\<rparr>)"
proof -
  have c0: "calls start_world = 0" by (simp add: start_world_def)
  have a: "\<not> (truthy (paging_next (pg (calls start_world + n))) \<and>
      length ([] @ concat (map (\<lambda>k. data (pg k))
         [calls start_world..<calls start_world + Suc n])) < cap)"
    using st unfolding c0 stops_at_def goes_on_def first_pages_def by simp
  have b: "\<forall>m<n. truthy (paging_next (pg (calls start_world + m))) \<and>
      length ([] @ concat (map (\<lambda>k. data (pg k))
         [calls start_world..<calls start_world + Suc m])) < cap"
    using st unfolding c0 stops_at_def goes_on_def first_pages_def list_all_iff by simp
  from fetch_pages_run[of request pg start_world n "[]" cap, OF req a b]
  show ?thesis unfolding c0 first_pages_def by simp
qed









text \<open>
  The request of every round is built from the arguments of \<open>getPagePosts\<close> alone: the
  client asks for one URL only, whatever \<open>paging.next\<close> the responses carry.
\<close>

lemma getPagePosts_asks_one_url:
  assumes "\<And>k. fetch (build_url pageToken (''/'' @ pageId @ ''/posts'')
                    (posts_params since until limit)) k =
               fetch' (build_url pageToken (''/'' @ pageId @ ''/posts'')
                    (posts_params since until limit)) k"
  shows "getPagePosts fetch pageId pageToken since until limit w =
         getPagePosts fetch' pageId pageToken since until limit w"
proof -
  have "fetch (build_url pageToken (''/'' @ pageId @ ''/posts'') (posts_params since until limit)) =
        fetch' (build_url pageToken (''/'' @ pageId @ ''/posts'') (posts_params since until limit))"
    using assms by (rule ext)
  then show ?thesis by (simp add: getPagePosts_def makeRequest_def[abs_def])
qed

text \<open>
  An upstream that serves its second and last page to a request carrying the cursor
  \<open>after\<close> is asked for its first page forty times over.
\<close>

lemma getPagePosts_refetches_first_page:
  "getPagePosts cursor_upstream ''1234'' ''token'' None None 25 start_world =
     Some (Inr (replicate 1000 1), \<lparr>calls = 40, sleeps = []\<rparr>)"
proof -
  let ?pg = "\<lambda>k::nat. first_page_of_two"
  have ok: "attempt_once (cursor_upstream
      (build_url ''token'' (''/'' @ ''1234'' @ ''/posts'') (posts_params None None 25)) k) =
      Returned (?pg k)" for k
    by (simp add: cursor_upstream_def attempt_once_def response_ok_def build_url_def
        posts_params_def)
  have len: "first_pages ?pg n = replicate (25 * n) 1" for n
    by (induction n) (simp_all add: first_pages_def first_page_of_two_def flip: replicate_add)
  have tr: "truthy (paging_next first_page_of_two)"
    by (simp add: first_page_of_two_def truthy_def)
  have st: "stops_at ?pg 1000 39"
    by (auto simp: stops_at_def goes_on_def len list_all_iff tr)
  have "getPagePosts cursor_upstream ''1234'' ''token'' None None 25 start_world =
      Some (Inr (first_pages ?pg (Suc 39)), start_world\<lparr>calls := Suc 39\<rparr>)"
    unfolding getPagePosts_def
    by (intro fetch_pages_from_start makeRequest_first_attempt st) (use ok in simp)
  then show ?thesis
    by (simp add: start_world_def len)
qed

section \<open>Properties of the token encryption\<close>

lemma of_char_hex_digit:
  "n < 16 \<Longrightarrow> (of_char (hex_digit n) :: nat) = (if n < 10 then 48 + n else 87 + n)"
  by (simp add: hex_digit_def)

lemma hex_value_hex_digit: "n < 16 \<Longrightarrow> hex_value (hex_digit n) = Some n"
  by (simp add: hex_value_def of_char_hex_digit Let_def)

lemma hex_digit_not_colon: "n < 16 \<Longrightarrow> hex_digit n \<noteq> CHR '':''"
proof
  assume n: "n < 16" and "hex_digit n = CHR '':''"
  then have "(of_char (hex_digit n) :: nat) = of_char (CHR '':'')" by simp
  with n show False by (simp add: of_char_hex_digit split: if_splits)
qed

lemma nibbles_less: "unat (b :: byte) div 16 < 16" "unat b mod 16 < 16"
  using unsigned_less[of b, where ?'a = nat] by simp_all

lemma set_toHex: "c \<in> set (toHex bs) \<Longrightarrow> \<exists>n<16. c = hex_digit n"
  by (auto simp: toHex_def intro: nibbles_less)

lemma colon_notin_toHex: "CHR '':'' \<notin> set (toHex bs)"
proof
  assume "CHR '':'' \<in> set (toHex bs)"
  then obtain n where "n < 16" "CHR '':'' = hex_digit n"
    by (auto dest: set_toHex)
  then show False using hex_digit_not_colon[of n] by simp
qed

lemma byte_of_nibbles: "(of_nat (16 * (unat b div 16) + unat b mod 16) :: byte) = b"
  by simp

lemma fromHex_toHex: "fromHex (toHex bs) = bs"
proof (induction bs)
  case Nil
  then show ?case by (simp add: toHex_def)
next
  case (Cons b bs)
  have "unat b div 16 < 16" "unat b mod 16 < 16"
    by (rule nibbles_less)+
  then have "hex_value (hex_digit (unat b div 16)) = Some (unat b div 16)"
    "hex_value (hex_digit (unat b mod 16)) = Some (unat b mod 16)"
    by (simp_all add: hex_value_hex_digit)
  with Cons show ?case
    using byte_of_nibbles[of b] by (simp add: toHex_def)
qed

lemma split_on_no_sep: "c \<notin> set xs \<Longrightarrow> split_on c xs = [xs]"
  by (induction xs) auto

lemma split_on_sep: "c \<notin> set xs \<Longrightarrow> split_on c (xs @ c # ys) = xs # split_on c ys"
  by (induction xs) auto

lemma xor_from_twice: "xor_from ks i (xor_from ks i bs) = bs"
  by (induction bs arbitrary: i) (simp_all add: xor.assoc)

lemma utf8_string_bytes: "utf8_string (utf8_bytes s) = s"
  by (induction s) (simp_all add: utf8_string_def utf8_bytes_def unat_of_nat)

lemma split_envelope:
  "split_on CHR '':'' (toHex a @ CHR '':'' # toHex b @ CHR '':'' # toHex c) =
     [toHex a, toHex b, toHex c]"
  by (simp only: split_on_sep[OF colon_notin_toHex] split_on_no_sep[OF colon_notin_toHex])

text \<open>
  C7. For every plaintext, a string of printable ASCII characters or of multi-byte UTF-8
  sequences alike, decrypting what \<open>encrypt\<close> produced under the same key returns the
  plaintext, whatever bytes \<open>crypto.randomBytes\<close> gave the call.
\<close>

theorem decrypt_encrypt:
  "decrypt lib env_key (encrypt lib env_key iv text) = Inr text"
  by (simp add: decrypt_def encrypt_def Let_def split_envelope fromHex_toHex xor_from_twice
      utf8_string_bytes)

theorem decrypt_encrypt_witness:
  "decrypt example_crypto ''00ff''
     (encrypt example_crypto ''00ff'' (replicate 16 1) [CHR ''c'', CHR ''a'', CHR 0xC3, CHR 0xA9]) =
   Inr [CHR ''c'', CHR ''a'', CHR 0xC3, CHR 0xA9]"
  by (rule decrypt_encrypt)

text \<open>
  C8. The envelope does hold, in order, the random \<open>iv\<close>, the authentication tag and the
  ciphertext; but the \<open>iv\<close> of a call is only written there. Two calls under one key with
  different random bytes produce the same tag and the same ciphertext for the same
  plaintext, and \<open>decrypt\<close> accepts the envelope with any other \<open>iv\<close> in front: the IV
  the cipher works with is the one derived from the key, the same in every call.
\<close>

theorem encrypt_never_uses_iv:
  "split_on CHR '':'' (encrypt lib env_key iv text) =
     [toHex iv,
      toHex (auth_tag lib (fromHex env_key)
               (xor_from (keystream lib (fromHex env_key)) 0 (utf8_bytes text))),
      toHex (xor_from (keystream lib (fromHex env_key)) 0 (utf8_bytes text))] \<and>
   tl (split_on CHR '':'' (encrypt lib env_key iv text)) =
   tl (split_on CHR '':'' (encrypt lib env_key iv' text)) \<and>
   decrypt lib env_key
     (toHex iv' @ '':'' @ toHex (auth_tag lib (fromHex env_key)
               (xor_from (keystream lib (fromHex env_key)) 0 (utf8_bytes text))) @ '':'' @
      toHex (xor_from (keystream lib (fromHex env_key)) 0 (utf8_bytes text))) = Inr text"
  by (simp add: decrypt_def encrypt_def Let_def split_envelope fromHex_toHex xor_from_twice
      utf8_string_bytes)

text \<open>
  Since the keystream is the same in every call, the XOR of two ciphertexts under one key
  is the XOR of their plaintexts.
\<close>

lemma keystream_reuse:
  "map (\<lambda>(a, b). a XOR b) (zip (xor_from ks i xs) (xor_from ks i ys)) =
   map (\<lambda>(a, b). a XOR b) (zip xs ys)"
proof (induction xs arbitrary: ys i)
  case Nil
  then show ?case by simp
next
  case (Cons x xs)
  have "(x XOR k) XOR (y XOR k) = x XOR y" for y k :: byte
    by (simp add: ac_simps)
  with Cons show ?case by (cases ys) simp_all
qed

section \<open>Properties of the analyze-sentiment worker\<close>

lemma find_append_None: "find P xs = None \<Longrightarrow> find P (xs @ ys) = find P ys"
  by (induction xs) (auto split: if_splits)

lemma analyzeSentiment_cases:
  "snd (analyzeSentiment engine cid now db) = db \<or>
   (find (\<lambda>a. commentId a = cid) (analyses db) = None \<and>
    (\<exists>r. snd (analyzeSentiment engine cid now db) =
       db\<lparr>analyses := analyses db @ [analysis_row cid r now]\<rparr>))"
proof (cases "find (\<lambda>c. comment_id c = cid) (comments db)")
  case None
  then show ?thesis by (simp add: analyzeSentiment_def)
next
  case (Some comment)
  then have "comment_id comment = cid" by (auto simp: find_Some_iff)
  with Some show ?thesis
    by (auto simp: analyzeSentiment_def split: option.splits sum.splits)
qed

lemma find_None_notin:
  "find (\<lambda>a. commentId a = cid) xs = None \<Longrightarrow> cid \<notin> commentId ` set xs"
  by (auto simp: find_None_iff)

lemma distinct_analyzeSentiment:
  assumes "distinct (map commentId (analyses db))"
  shows "distinct (map commentId (analyses (snd (analyzeSentiment engine cid now db))))"
  using analyzeSentiment_cases[of engine cid now db] assms
  by (auto simp: analysis_row_def dest: find_None_notin)

lemma length_analyses_for_distinct:
  "distinct (map commentId (analyses db)) \<Longrightarrow> length (analyses_for c db) \<le> 1"
  unfolding analyses_for_def
proof (induction "analyses db" arbitrary: db)
  case Nil
  then show ?case by simp
next
  case (Cons a as)
  from Cons.hyps(2)[symmetric] Cons.prems
  have d: "distinct (map commentId as)" and n: "commentId a \<notin> commentId ` set as"
    by simp_all
  have "length (filter (\<lambda>a. commentId a = c) as) \<le> 1"
    using Cons.hyps(1)[of "db\<lparr>analyses := as\<rparr>"] d by simp
  moreover have "filter (\<lambda>x. commentId x = c) as = []" if "commentId a = c"
  proof -
    have "\<forall>x\<in>set as. commentId x \<noteq> c" using n that by blast
    then show ?thesis by (simp add: filter_empty_conv)
  qed
  ultimately show ?case
    unfolding Cons.hyps(2)[symmetric] by auto
qed

lemma analyzeSentiment_as_steps:
  "analyze_step engine cid now (analyze_step engine cid now (analyze_step engine cid now
     (analyze_step engine cid now (AtStart, db)))) =
   (Ended (fst (analyzeSentiment engine cid now db)), snd (analyzeSentiment engine cid now db))"
  by (simp add: analyzeSentiment_def split: option.splits sum.splits)

lemma analyze_step_db:
  "snd (analyze_step engine cid now (pc, db)) = db \<or>
   (\<exists>comment result. pc = HasResult comment result \<and>
      snd (analyze_step engine cid now (pc, db)) =
        db\<lparr>analyses := analyses db @ [analysis_row (comment_id comment) result now]\<rparr>)"
  by (cases pc) (auto split: option.splits sum.splits)

lemma commentId_analysis_row: "commentId (analysis_row cid r now) = cid"
  by (simp add: analysis_row_def)

lemma find_Some_in:
  "find (\<lambda>a. commentId a = cid) xs \<noteq> None \<Longrightarrow> cid \<in> commentId ` set xs"
  by (auto simp: find_None_iff)

lemma snd_deliver_step:
  "i < length runs \<Longrightarrow> runs ! i = (d, pc) \<Longrightarrow>
   snd (deliver_step i (runs, db)) =
     snd (analyze_step (engine_of d) (of_comment d) (clock_of d) (pc, db))"
  by (simp add: deliver_step_def split: prod.splits)

lemma fst_deliver_step:
  "i < length runs \<Longrightarrow> runs ! i = (d, pc) \<Longrightarrow>
   fst (deliver_step i (runs, db)) =
     runs[i := (d, fst (analyze_step (engine_of d) (of_comment d) (clock_of d) (pc, db)))]"
  by (simp add: deliver_step_def split: prod.splits)

lemma deliver_step_fresh:
  assumes "fresh_write i (runs, db)" "distinct (map commentId (analyses db))"
  shows "distinct (map commentId (analyses (snd (deliver_step i (runs, db)))))"
proof (cases "i < length runs")
  case False
  then show ?thesis using assms by (simp add: deliver_step_def)
next
  case True
  obtain d pc where r: "runs ! i = (d, pc)" by (cases "runs ! i")
  from analyze_step_db[of "engine_of d" "of_comment d" "clock_of d" pc db]
  show ?thesis
  proof (elim disjE exE conjE)
    assume "snd (analyze_step (engine_of d) (of_comment d) (clock_of d) (pc, db)) = db"
    then show ?thesis using assms(2) by (simp add: snd_deliver_step[OF True r])
  next
    fix comment result
    assume pc: "pc = HasResult comment result"
    from assms(1) True r pc
    have "find (\<lambda>a. commentId a = comment_id comment) (analyses db) = None"
      by (simp add: fresh_write_def)
    then have "comment_id comment \<notin> commentId ` set (analyses db)" by (rule find_None_notin)
    then show ?thesis using pc assms(2)
      by (simp add: snd_deliver_step[OF True r] commentId_analysis_row)
  qed
qed

lemma deliver_step_stale:
  assumes "\<not> fresh_write i (runs, db)"
  shows "\<not> distinct (map commentId (analyses (snd (deliver_step i (runs, db)))))"
proof -
  from assms have l: "i < length runs" by (auto simp: fresh_write_def split: if_splits)
  obtain d pc where r: "runs ! i = (d, pc)" by (cases "runs ! i")
  from assms l r obtain comment result where pc: "pc = HasResult comment result"
    and f: "find (\<lambda>a. commentId a = comment_id comment) (analyses db) \<noteq> None"
    by (auto simp: fresh_write_def split: run_pc.splits)
  from f have "comment_id comment \<in> commentId ` set (analyses db)" by (rule find_Some_in)
  then show ?thesis using pc
    by (simp add: snd_deliver_step[OF l r] commentId_analysis_row)
qed

lemma deliver_step_keeps_duplicates:
  assumes "\<not> distinct (map commentId (analyses db))"
  shows "\<not> distinct (map commentId (analyses (snd (deliver_step i (runs, db)))))"
proof (cases "i < length runs")
  case False
  then show ?thesis using assms by (simp add: deliver_step_def)
next
  case True
  obtain d pc where r: "runs ! i = (d, pc)" by (cases "runs ! i")
  from analyze_step_db[of "engine_of d" "of_comment d" "clock_of d" pc db] assms
  show ?thesis by (auto simp: snd_deliver_step[OF True r])
qed

lemma run_schedule_Cons: "run_schedule (i # sch) st = run_schedule sch (deliver_step i st)"
  by (simp add: run_schedule_def)

lemma run_schedule_append: "run_schedule (xs @ ys) st = run_schedule ys (run_schedule xs st)"
  by (simp add: run_schedule_def)

lemma run_schedule_keeps_duplicates:
  "\<not> distinct (map commentId (analyses db)) \<Longrightarrow>
   \<not> distinct (map commentId (analyses (snd (run_schedule sch (runs, db)))))"
proof (induction sch arbitrary: runs db)
  case Nil
  then show ?case by (simp add: run_schedule_def)
next
  case (Cons i sch)
  obtain runs' db' where st: "deliver_step i (runs, db) = (runs', db')"
    by (cases "deliver_step i (runs, db)")
  from deliver_step_keeps_duplicates[OF Cons.prems, of i runs] st
  have "\<not> distinct (map commentId (analyses db'))" by simp
  from Cons.IH[OF this] show ?case by (simp add: run_schedule_Cons st)
qed

lemma distinct_iff_fresh_writes:
  "distinct (map commentId (analyses db)) \<Longrightarrow>
   distinct (map commentId (analyses (snd (run_schedule sch (runs, db))))) \<longleftrightarrow>
   fresh_writes sch (runs, db)"
proof (induction sch arbitrary: runs db)
  case Nil
  then show ?case by (simp add: run_schedule_def)
next
  case (Cons i sch)
  obtain runs' db' where st: "deliver_step i (runs, db) = (runs', db')"
    by (cases "deliver_step i (runs, db)")
  show ?case
  proof (cases "fresh_write i (runs, db)")
    case True
    from deliver_step_fresh[OF True Cons.prems] st
    have "distinct (map commentId (analyses db'))" by simp
    from Cons.IH[OF this] True show ?thesis by (simp add: run_schedule_Cons st)
  next
    case False
    from deliver_step_stale[OF False] st
    have "\<not> distinct (map commentId (analyses db'))" by simp
    from run_schedule_keeps_duplicates[OF this] False show ?thesis
      by (simp add: run_schedule_Cons st)
  qed
qed

lemma fresh_writes_append:
  "fresh_writes (xs @ ys) st \<longleftrightarrow> fresh_writes xs st \<and> fresh_writes ys (run_schedule xs st)"
  by (induction xs arbitrary: st) (simp_all add: run_schedule_def)

lemma deliver_step_runs:
  "length (fst (deliver_step i st)) = length (fst st) \<and>
   (k \<noteq> i \<longrightarrow> fst (deliver_step i st) ! k = fst st ! k)"
  by (cases st) (auto simp: deliver_step_def split: prod.splits)

lemma run_schedule_runs:
  "length (fst (run_schedule sch st)) = length (fst st) \<and>
   (k \<notin> set sch \<longrightarrow> fst (run_schedule sch st) ! k = fst st ! k)"
proof (induction sch arbitrary: st)
  case Nil
  then show ?case by (simp add: run_schedule_def)
next
  case (Cons i sch)
  from Cons.IH[of "deliver_step i st"] deliver_step_runs[of i st k]
  show ?case by (auto simp: run_schedule_Cons)
qed

lemma pending_ok_step:
  "pending_ok pc db \<Longrightarrow>
   pending_ok (fst (analyze_step engine cid now (pc, db))) (snd (analyze_step engine cid now (pc, db)))"
  by (cases pc) (simp_all add: pending_ok_def split: option.splits sum.splits)

lemma fresh_writes_same_run:
  assumes "i < length runs \<longrightarrow> pending_ok (snd (runs ! i)) db"
  shows "fresh_writes (replicate k i) (runs, db)"
  using assms
proof (induction k arbitrary: runs db)
  case 0
  then show ?case by simp
next
  case (Suc k)
  show ?case
  proof (cases "i < length runs")
    case False
    then have "deliver_step i (runs, db) = (runs, db)" by (simp add: deliver_step_def)
    moreover have "fresh_write i (runs, db)" using False by (simp add: fresh_write_def)
    ultimately show ?thesis using Suc.IH[of runs db] False by simp
  next
    case True
    obtain d pc where r: "runs ! i = (d, pc)" by (cases "runs ! i")
    with Suc.prems True have p: "pending_ok pc db" by simp
    then have f: "fresh_write i (runs, db)"
      using True r by (simp add: fresh_write_def pending_ok_def split: run_pc.splits)
    let ?st = "analyze_step (engine_of d) (of_comment d) (clock_of d) (pc, db)"
    have st: "deliver_step i (runs, db) = (runs[i := (d, fst ?st)], snd ?st)"
      using snd_deliver_step[OF True r, of db] fst_deliver_step[OF True r, of db]
      by (cases "deliver_step i (runs, db)") simp
    have "fresh_writes (replicate k i) (runs[i := (d, fst ?st)], snd ?st)"
      using True pending_ok_step[OF p] by (intro Suc.IH) simp
    with f st show ?thesis by simp
  qed
qed

lemma fresh_writes_whole_run:
  assumes "i < length runs \<longrightarrow> snd (runs ! i) = AtStart"
  shows "fresh_writes [i, i, i, i] (runs, db)"
proof -
  have "i < length runs \<longrightarrow> pending_ok (snd (runs ! i)) db"
    using assms by (simp add: pending_ok_def)
  then have "fresh_writes (replicate 4 i) (runs, db)" by (rule fresh_writes_same_run)
  then show ?thesis by (simp add: numeral_eq_Suc)
qed

lemma in_turn_Suc: "in_turn (Suc n) = in_turn n @ [n, n, n, n]"
  by (simp add: in_turn_def)

lemma notin_in_turn: "n \<notin> set (in_turn n)"
  by (simp add: in_turn_def)

lemma fresh_writes_in_turn: "fresh_writes (in_turn n) (start_runs ds, db)"
proof (induction n)
  case 0
  then show ?case by (simp add: in_turn_def)
next
  case (Suc n)
  obtain runs' db' where st: "run_schedule (in_turn n) (start_runs ds, db) = (runs', db')"
    by (cases "run_schedule (in_turn n) (start_runs ds, db)")
  from run_schedule_runs[of "in_turn n" "(start_runs ds, db)" n] st
  have "length runs' = length ds" "runs' ! n = start_runs ds ! n"
    by (simp_all add: notin_in_turn start_runs_def)
  then have "n < length runs' \<longrightarrow> snd (runs' ! n) = AtStart"
    by (simp add: start_runs_def)
  then have "fresh_writes [n, n, n, n] (runs', db')" by (rule fresh_writes_whole_run)
  with Suc show ?case by (simp only: in_turn_Suc fresh_writes_append st simp_thms)
qed

text \<open>
  C9 (as the code has it). For a comment that exists: when an Analysis row for it exists
  already, the worker returns successfully and leaves the tables as they are; when there
  is none and the engine returns a result, it appends exactly one Analysis row, for this
  comment, and a further run on the outcome, with whatever engine, is again a no-op. The
  existence check and the write are separate steps of a run: when deliveries, of this job
  or of others, run interleaved on a table with at most one Analysis per comment, the
  table stays so if and only if every write is fresh, no other run having written an
  Analysis for the comment since the writing run's check. That is the case whenever the
  deliveries run one after the other, which then leave at most one Analysis per comment.
\<close>

theorem analyzeSentiment_idempotent:
  assumes c: "find (\<lambda>c. comment_id c = cid) (comments db) = Some comment"
  shows "(find (\<lambda>a. commentId a = cid) (analyses db) \<noteq> None \<longrightarrow>
            analyzeSentiment engine cid now db = (Inr (), db)) \<and>
         (find (\<lambda>a. commentId a = cid) (analyses db) = None \<longrightarrow>
            (\<forall>r. engine (message comment) = Inr r \<longrightarrow>
               analyzeSentiment engine cid now db =
                 (Inr (), db\<lparr>analyses := analyses db @ [analysis_row cid r now]\<rparr>) \<and>
               analyzeSentiment engine' cid now'
                   (db\<lparr>analyses := analyses db @ [analysis_row cid r now]\<rparr>) =
                 (Inr (), db\<lparr>analyses := analyses db @ [analysis_row cid r now]\<rparr>))) \<and>
         (distinct (map commentId (analyses db)) \<longrightarrow>
            (\<forall>ds sch.
               distinct (map commentId (analyses (snd (run_schedule sch (start_runs ds, db))))) =
               fresh_writes sch (start_runs ds, db)) \<and>
            (\<forall>ds. fresh_writes (in_turn (length ds)) (start_runs ds, db)) \<and>
            (\<forall>ds c. length (analyses_for c
                 (snd (run_schedule (in_turn (length ds)) (start_runs ds, db)))) \<le> 1))"
proof -
  have id: "comment_id comment = cid" using c by (auto simp: find_Some_iff)
  have 1: "analyzeSentiment engine cid now db = (Inr (), db)"
    if "find (\<lambda>a. commentId a = cid) (analyses db) \<noteq> None"
    using that c id by (auto simp: analyzeSentiment_def)
  have 2: "analyzeSentiment engine cid now db =
             (Inr (), db\<lparr>analyses := analyses db @ [analysis_row cid r now]\<rparr>)"
    if "find (\<lambda>a. commentId a = cid) (analyses db) = None" "engine (message comment) = Inr r" for r
    using that c id by (simp add: analyzeSentiment_def)
  have 3: "analyzeSentiment engine' cid now'
                   (db\<lparr>analyses := analyses db @ [analysis_row cid r now]\<rparr>) =
                 (Inr (), db\<lparr>analyses := analyses db @ [analysis_row cid r now]\<rparr>)"
    if "find (\<lambda>a. commentId a = cid) (analyses db) = None" for r
    using that c id by (simp add: analyzeSentiment_def analysis_row_def find_append_None)
  have 4: "distinct (map commentId (analyses (snd (run_schedule sch (start_runs ds, db))))) =
           fresh_writes sch (start_runs ds, db)"
    if "distinct (map commentId (analyses db))" for ds :: "'a Delivery list" and sch
    using that by (rule distinct_iff_fresh_writes)
  have 5: "fresh_writes (in_turn (length ds)) (start_runs ds, db)" for ds :: "'a Delivery list"
    by (rule fresh_writes_in_turn)
  have 6: "length (analyses_for c
             (snd (run_schedule (in_turn (length ds)) (start_runs ds, db)))) \<le> 1"
    if "distinct (map commentId (analyses db))" for ds :: "'a Delivery list" and c
    using 4[OF that, of "in_turn (length ds)" ds] 5[of ds]
    by (intro length_analyses_for_distinct) simp
  from 1 2 3 4 5 6 show ?thesis by blast
qed

theorem analyzeSentiment_idempotent_witness:
  "find (\<lambda>c. comment_id c = ''c1'') (comments example_db) =
     Some \<lparr>comment_id = ''c1'', message = ''great post''\<rparr> \<and>
   find (\<lambda>a. commentId a = ''c1'') (analyses example_db) = None \<and>
   analyzeSentiment (\<lambda>t. Inr example_result) ''c1'' 5 example_db =
     (Inr (), example_db\<lparr>analyses := [analysis_row ''c1'' example_result 5]\<rparr>) \<and>
   analyzeSentiment (\<lambda>t. Inl (WorkerError ''No sentiment analyzers available'')) ''c1'' 9
       (example_db\<lparr>analyses := [analysis_row ''c1'' example_result 5]\<rparr>) =
     (Inr (), example_db\<lparr>analyses := [analysis_row ''c1'' example_result 5]\<rparr>) \<and>
   distinct (map commentId (analyses example_db)) \<and>
   fresh_writes [0, 1, 0, 0, 0, 1, 1, 1]
     (start_runs [example_delivery 5, example_delivery 6], example_db) \<and>
   map commentId (analyses (snd (run_schedule [0, 1, 0, 0, 0, 1, 1, 1]
     (start_runs [example_delivery 5, example_delivery 6], example_db)))) = [''c1''] \<and>
   length (analyses_for ''c1'' (snd (run_schedule (in_turn 2)
     (start_runs [example_delivery 5, example_delivery 6], example_db)))) = 1"
proof -
  have t: "in_turn 2 = [0, 0, 0, 0, 1, 1, 1, 1]"
    by (simp add: in_turn_def upt_rec)
  show ?thesis
    using analyzeSentiment_idempotent [of "''c1''" example_db
        "\<lparr>comment_id = ''c1'', message = ''great post''\<rparr>" "\<lambda>t. Inr example_result" 5
        "\<lambda>t. Inl (WorkerError ''No sentiment analyzers available'')" 9]
    by (simp add: example_db_def analyzeSentiment_def analysis_row_def run_schedule_def
        deliver_step_def start_runs_def example_delivery_def fresh_write_def analyses_for_def t)
qed

text \<open>
  Two deliveries whose runs alternate step by step: both look for an Analysis before
  either has written one, and both write.
\<close>

theorem overlapping_deliveries_write_twice_counterexample:
  "map commentId (analyses (snd (run_schedule [0, 1, 0, 1, 0, 1, 0, 1]
     (start_runs [example_delivery 5, example_delivery 6], example_db)))) = [''c1'', ''c1'']"
  by (simp add: example_db_def analysis_row_def run_schedule_def deliver_step_def start_runs_def
      example_delivery_def)

end
